theory Spec2Isabelle
  imports Main "HOL-Library.Word" "HOL-Library.Sublist" "HOL-Library.Multiset"
begin

section \<open>JavaScript strings\<close>

text \<open>
  A JavaScript string is a sequence of UTF-16 code units. ASCII literals of the source are
  written \<open>js ''...''\<close>.
\<close>

type_synonym cu = "16 word"
type_synonym jsstring = "cu list"

definition js :: "string \<Rightarrow> jsstring" where
  "js s = map of_char s"

text \<open>
  \<open>String.prototype.trim\<close> removes WhiteSpace and LineTerminator code points from both
  ends: TAB, LF, VT, FF, CR, SP, NBSP, U+1680, U+2000..U+200A, U+2028, U+2029, U+202F,
  U+205F, U+3000 and U+FEFF.
\<close>

definition is_space :: "cu \<Rightarrow> bool" where
  "is_space c \<longleftrightarrow>
     c = 0x09 \<or> c = 0x0A \<or> c = 0x0B \<or> c = 0x0C \<or> c = 0x0D \<or> c = 0x20 \<or> c = 0xA0 \<or>
     c = 0x1680 \<or> (0x2000 \<le> c \<and> c \<le> 0x200A) \<or> c = 0x2028 \<or> c = 0x2029 \<or>
     c = 0x202F \<or> c = 0x205F \<or> c = 0x3000 \<or> c = 0xFEFF"

definition trim :: "jsstring \<Rightarrow> jsstring" where
  "trim s = rev (dropWhile is_space (rev (dropWhile is_space s)))"

text \<open>
  \<open>Date.now().toString()\<close>: \<open>Date.now()\<close> is an integer number of milliseconds (negative
  before 1970), far below \<open>1e21\<close>, so \<open>toString\<close> prints its decimal digits.
\<close>

fun digits :: "nat \<Rightarrow> jsstring" where
  "digits n = (if n < 10 then [of_nat (48 + n)] else digits (n div 10) @ [of_nat (48 + n mod 10)])"

declare digits.simps [simp del]

definition toString :: "int \<Rightarrow> jsstring" where
  "toString i = (if i < 0 then 0x2D # digits (nat (- i)) else digits (nat i))"

section \<open>Data model (App.tsx, lines 19-34)\<close>

record todo =
  id_t :: jsstring
  text_t :: jsstring
  completed :: bool

datatype Filter = F_all | F_active | F_completed

text \<open>The four \<open>useState\<close> variables of the component.\<close>

record app =
  isDark :: bool
  todos :: "todo list"
  input :: jsstring
  filter_f :: Filter

definition STORAGE_KEY :: jsstring where
  "STORAGE_KEY = js ''@todos''"

definition THEME_KEY :: jsstring where
  "THEME_KEY = js ''@theme''"

section \<open>AsyncStorage\<close>

text \<open>
  The store maps keys to strings. Each request is answered by the medium: the flag \<open>ok\<close>
  says whether the promise of that request resolves (\<open>True\<close>) or rejects (\<open>False\<close>).
\<close>

datatype error = StorageError | SyntaxError

type_synonym storage = "jsstring \<rightharpoonup> jsstring"

definition getItem :: "bool \<Rightarrow> storage \<Rightarrow> jsstring \<Rightarrow> error + jsstring option" where
  "getItem ok st k = (if ok then Inr (st k) else Inl StorageError)"

definition setItem :: "bool \<Rightarrow> storage \<Rightarrow> jsstring \<Rightarrow> jsstring \<Rightarrow> error + storage" where
  "setItem ok st k v = (if ok then Inr (st(k \<mapsto> v)) else Inl StorageError)"

text \<open>
  The world of the component: its state variables, the store, what \<open>console.error\<close> has
  printed, and the rejections nobody caught.
\<close>

record world = app +
  disk :: storage
  console :: "error list"
  unhandled :: "error list"

definition init :: "storage \<Rightarrow> world" where
  "init d = \<lparr>isDark = False, todos = [], input = [], filter_f = F_all,
             disk = d, console = [], unhandled = []\<rparr>"

definition console_error :: "error \<Rightarrow> world \<Rightarrow> world" where
  "console_error e w = w\<lparr>console := console w @ [e]\<rparr>"

section \<open>\<open>JSON.stringify\<close> on a \<open>Todo[]\<close>\<close>

text \<open>
  \<open>QuoteJSONString\<close> walks the code points of the string: a surrogate pair is copied, a
  lone surrogate and a control character are escaped.
\<close>

definition is_lead :: "cu \<Rightarrow> bool" where
  "is_lead c \<longleftrightarrow> 0xD800 \<le> c \<and> c \<le> 0xDBFF"

definition is_trail :: "cu \<Rightarrow> bool" where
  "is_trail c \<longleftrightarrow> 0xDC00 \<le> c \<and> c \<le> 0xDFFF"

definition hex_digit :: "nat \<Rightarrow> cu" where
  "hex_digit n = (if n < 10 then of_nat (48 + n) else of_nat (87 + n))"

definition unicode_escape :: "cu \<Rightarrow> jsstring" where
  "unicode_escape c =
     [0x5C, 0x75, hex_digit (unat c div 4096), hex_digit (unat c div 256 mod 16),
      hex_digit (unat c div 16 mod 16), hex_digit (unat c mod 16)]"

definition quote_unit :: "cu \<Rightarrow> jsstring" where
  "quote_unit c =
     (if c = 0x08 then [0x5C, 0x62]
      else if c = 0x09 then [0x5C, 0x74]
      else if c = 0x0A then [0x5C, 0x6E]
      else if c = 0x0C then [0x5C, 0x66]
      else if c = 0x0D then [0x5C, 0x72]
      else if c = 0x22 then [0x5C, 0x22]
      else if c = 0x5C then [0x5C, 0x5C]
      else if c < 0x20 \<or> is_lead c \<or> is_trail c then unicode_escape c
      else [c])"

fun quote_units :: "jsstring \<Rightarrow> jsstring" where
  "quote_units [] = []"
| "quote_units [c] = quote_unit c"
| "quote_units (c # d # cs) =
     (if is_lead c \<and> is_trail d then c # d # quote_units cs
      else quote_unit c @ quote_units (d # cs))"

definition QuoteJSONString :: "jsstring \<Rightarrow> jsstring" where
  "QuoteJSONString s = 0x22 # quote_units s @ [0x22]"

text \<open>
  A \<open>Todo\<close> carries its properties in the order \<open>id\<close>, \<open>text\<close>, \<open>completed\<close>: the order of
  the object literal in \<open>addTodo\<close>, which the spread in \<open>toggleComplete\<close> keeps.
\<close>

definition stringify_todo :: "todo \<Rightarrow> jsstring" where
  "stringify_todo t =
     0x7B # QuoteJSONString (js ''id'') @ 0x3A # QuoteJSONString (id_t t) @
     0x2C # QuoteJSONString (js ''text'') @ 0x3A # QuoteJSONString (text_t t) @
     0x2C # QuoteJSONString (js ''completed'') @ 0x3A #
     (if completed t then js ''true'' else js ''false'') @ [0x7D]"

fun join_comma :: "jsstring list \<Rightarrow> jsstring" where
  "join_comma [] = []"
| "join_comma [x] = x"
| "join_comma (x # y # ys) = x @ 0x2C # join_comma (y # ys)"

definition JSON_stringify :: "todo list \<Rightarrow> jsstring" where
  "JSON_stringify ts = 0x5B # join_comma (map stringify_todo ts) @ [0x5D]"

section \<open>The operations of the component (App.tsx, lines 50-100 and 182)\<close>

text \<open>
  Every handler is one step: the intents arrive one at a time, and the continuation after
  an \<open>await\<close> has run before the next intent.
\<close>

definition saveTodos :: "bool \<Rightarrow> todo list \<Rightarrow> world \<Rightarrow> world" where
  "saveTodos ok newTodos w =
     (case setItem ok (disk w) STORAGE_KEY (JSON_stringify newTodos) of
        Inr d \<Rightarrow> w\<lparr>todos := newTodos, disk := d\<rparr>
      | Inl e \<Rightarrow> console_error e w)"

definition handleThemeToggle :: "bool \<Rightarrow> world \<Rightarrow> world" where
  "handleThemeToggle ok w =
     (let newTheme = \<not> isDark w; w' = w\<lparr>isDark := newTheme\<rparr>
      in case setItem ok (disk w') THEME_KEY (if newTheme then js ''dark'' else js ''light'') of
           Inr d \<Rightarrow> w'\<lparr>disk := d\<rparr>
         | Inl e \<Rightarrow> w'\<lparr>unhandled := unhandled w' @ [e]\<rparr>)"

definition addTodo :: "int \<Rightarrow> bool \<Rightarrow> world \<Rightarrow> world" where
  "addTodo now ok w =
     (if trim (input w) = [] then w
      else let newTodo = \<lparr>id_t = toString now, text_t = trim (input w), completed = False\<rparr>
           in (saveTodos ok (todos w @ [newTodo]) w)\<lparr>input := []\<rparr>)"

definition toggleComplete :: "jsstring \<Rightarrow> bool \<Rightarrow> world \<Rightarrow> world" where
  "toggleComplete i ok w =
     saveTodos ok (map (\<lambda>t. if id_t t = i then t\<lparr>completed := \<not> completed t\<rparr> else t) (todos w)) w"

definition deleteTodo :: "jsstring \<Rightarrow> bool \<Rightarrow> world \<Rightarrow> world" where
  "deleteTodo i ok w = saveTodos ok (filter (\<lambda>t. id_t t \<noteq> i) (todos w)) w"

text \<open>The alert has two buttons; only \<open>Clear\<close> has an \<open>onPress\<close>.\<close>

datatype button = Cancel | Clear

definition clearCompleted :: "button \<Rightarrow> bool \<Rightarrow> world \<Rightarrow> world" where
  "clearCompleted b ok w =
     (case b of
        Cancel \<Rightarrow> w
      | Clear \<Rightarrow> saveTodos ok (filter (\<lambda>t. \<not> completed t) (todos w)) w)"

definition filteredTodos :: "world \<Rightarrow> todo list" where
  "filteredTodos w =
     filter (\<lambda>t. if filter_f w = F_active then \<not> completed t
                 else if filter_f w = F_completed then completed t
                 else True) (todos w)"

definition activeCount :: "world \<Rightarrow> nat" where
  "activeCount w = length (filter (\<lambda>t. \<not> completed t) (todos w))"

definition setFilter :: "Filter \<Rightarrow> world \<Rightarrow> world" where
  "setFilter f w = w\<lparr>filter_f := f\<rparr>"

definition setInput :: "jsstring \<Rightarrow> world \<Rightarrow> world" where
  "setInput s w = w\<lparr>input := s\<rparr>"

text \<open>\<open>onDragEnd={({ data }) => saveTodos(data)}\<close>: the list hands over the dragged order.\<close>

definition onDragEnd :: "todo list \<Rightarrow> bool \<Rightarrow> world \<Rightarrow> world" where
  "onDragEnd data ok w = saveTodos ok data w"

section \<open>\<open>JSON.parse\<close>\<close>

text \<open>
  The value \<open>JSON.parse\<close> returns. A number keeps its lexeme (no claim reads its value),
  an object keeps its members as the text lists them.
\<close>

datatype json =
  JNull
| JBool bool
| JNum jsstring
| JStr jsstring
| JArr "json list"
| JObj "(jsstring \<times> json) list"

definition is_ws :: "cu \<Rightarrow> bool" where
  "is_ws c \<longleftrightarrow> c = 0x09 \<or> c = 0x0A \<or> c = 0x0D \<or> c = 0x20"

definition skip_ws :: "jsstring \<Rightarrow> jsstring" where
  "skip_ws cs = dropWhile is_ws cs"

definition is_digit :: "cu \<Rightarrow> bool" where
  "is_digit c \<longleftrightarrow> 0x30 \<le> c \<and> c \<le> 0x39"

definition hex_value :: "cu \<Rightarrow> nat option" where
  "hex_value c =
     (if 0x30 \<le> c \<and> c \<le> 0x39 then Some (unat c - 48)
      else if 0x61 \<le> c \<and> c \<le> 0x66 then Some (unat c - 87)
      else if 0x41 \<le> c \<and> c \<le> 0x46 then Some (unat c - 55)
      else None)"

definition hex4 :: "cu \<Rightarrow> cu \<Rightarrow> cu \<Rightarrow> cu \<Rightarrow> cu option" where
  "hex4 h1 h2 h3 h4 =
     (case hex_value h1 of None \<Rightarrow> None | Some a \<Rightarrow>
      case hex_value h2 of None \<Rightarrow> None | Some b \<Rightarrow>
      case hex_value h3 of None \<Rightarrow> None | Some c \<Rightarrow>
      case hex_value h4 of None \<Rightarrow> None | Some d \<Rightarrow>
        Some (of_nat (((a * 16 + b) * 16 + c) * 16 + d)))"

text \<open>The character after a backslash, other than \<open>u\<close>.\<close>

definition unescape :: "cu \<Rightarrow> cu option" where
  "unescape e =
     (if e = 0x22 then Some 0x22
      else if e = 0x2F then Some 0x2F
      else if e = 0x5C then Some 0x5C
      else if e = 0x62 then Some 0x08
      else if e = 0x66 then Some 0x0C
      else if e = 0x6E then Some 0x0A
      else if e = 0x72 then Some 0x0D
      else if e = 0x74 then Some 0x09
      else None)"

definition cons_fst :: "'a \<Rightarrow> ('a list \<times> 'b) option \<Rightarrow> ('a list \<times> 'b) option" where
  "cons_fst c r = (case r of None \<Rightarrow> None | Some (s, rest) \<Rightarrow> Some (c # s, rest))"

text \<open>The characters of a string after its opening quote, up to the closing one.\<close>

fun parse_chars :: "jsstring \<Rightarrow> (jsstring \<times> jsstring) option" where
  "parse_chars [] = None"
| "parse_chars (c # cs) =
     (if c = 0x22 then Some ([], cs)
      else if c = 0x5C then
        (case cs of
           [] \<Rightarrow> None
         | e # r \<Rightarrow>
             if e = 0x75 then
               (case r of
                  h1 # h2 # h3 # h4 # r' \<Rightarrow>
                    (case hex4 h1 h2 h3 h4 of
                       None \<Rightarrow> None
                     | Some u \<Rightarrow> cons_fst u (parse_chars r'))
                | _ \<Rightarrow> None)
             else (case unescape e of
                     None \<Rightarrow> None
                   | Some u \<Rightarrow> cons_fst u (parse_chars r)))
      else if c < 0x20 then None
      else cons_fst c (parse_chars cs))"

text \<open>
  A number: \<open>-? (0 | [1-9][0-9]*) (. [0-9]+)? ([eE] [+-]? [0-9]+)?\<close>. Each part returns
  its lexeme and the rest.
\<close>

definition number_int :: "jsstring \<Rightarrow> (jsstring \<times> jsstring) option" where
  "number_int cs =
     (case cs of
        [] \<Rightarrow> None
      | d # r \<Rightarrow>
          if d = 0x30 then Some ([d], r)
          else if is_digit d then Some (d # takeWhile is_digit r, dropWhile is_digit r)
          else None)"

definition number_frac :: "jsstring \<Rightarrow> (jsstring \<times> jsstring) option" where
  "number_frac cs =
     (case cs of
        [] \<Rightarrow> Some ([], cs)
      | p # r \<Rightarrow>
          if p = 0x2E then
            (if takeWhile is_digit r = [] then None
             else Some (p # takeWhile is_digit r, dropWhile is_digit r))
          else Some ([], cs))"

definition number_digits1 :: "jsstring \<Rightarrow> jsstring \<Rightarrow> (jsstring \<times> jsstring) option" where
  "number_digits1 pre r =
     (if takeWhile is_digit r = [] then None
      else Some (pre @ takeWhile is_digit r, dropWhile is_digit r))"

definition number_exp :: "jsstring \<Rightarrow> (jsstring \<times> jsstring) option" where
  "number_exp cs =
     (case cs of
        [] \<Rightarrow> Some ([], cs)
      | e # r \<Rightarrow>
          if e = 0x65 \<or> e = 0x45 then
            (case r of
               [] \<Rightarrow> None
             | s # r' \<Rightarrow>
                 if s = 0x2B \<or> s = 0x2D then number_digits1 [e, s] r'
                 else number_digits1 [e] r)
          else Some ([], cs))"

definition parse_number :: "jsstring \<Rightarrow> (jsstring \<times> jsstring) option" where
  "parse_number cs =
     (let (sgn, r0) = (case cs of [] \<Rightarrow> ([], cs) | m # r \<Rightarrow> if m = 0x2D then ([m], r) else ([], cs))
      in case number_int r0 of None \<Rightarrow> None | Some (i, r1) \<Rightarrow>
         case number_frac r1 of None \<Rightarrow> None | Some (f, r2) \<Rightarrow>
         case number_exp r2 of None \<Rightarrow> None | Some (x, r3) \<Rightarrow>
           Some (sgn @ i @ f @ x, r3))"

text \<open>
  The recursive descent over values, array elements and object members. Every call spends
  one unit of fuel; \<open>JSON_parse\<close> starts with more than the text can use.
\<close>

datatype parse_error = Syntax | Fuel

fun parse_value :: "nat \<Rightarrow> jsstring \<Rightarrow> parse_error + json \<times> jsstring"
  and parse_elements :: "nat \<Rightarrow> json list \<Rightarrow> jsstring \<Rightarrow> parse_error + json \<times> jsstring"
  and parse_members :: "nat \<Rightarrow> (jsstring \<times> json) list \<Rightarrow> jsstring \<Rightarrow> parse_error + json \<times> jsstring"
where
  "parse_value 0 cs = Inl Fuel"
| "parse_value (Suc n) cs =
     (case cs of
        [] \<Rightarrow> Inl Syntax
      | c # r \<Rightarrow>
          if c = 0x22 then
            (case parse_chars r of
               None \<Rightarrow> Inl Syntax
             | Some (s, rest) \<Rightarrow> Inr (JStr s, rest))
          else if c = 0x5B then
            (case skip_ws r of
               [] \<Rightarrow> Inl Syntax
             | d # r' \<Rightarrow> if d = 0x5D then Inr (JArr [], r') else parse_elements n [] (d # r'))
          else if c = 0x7B then
            (case skip_ws r of
               [] \<Rightarrow> Inl Syntax
             | d # r' \<Rightarrow> if d = 0x7D then Inr (JObj [], r') else parse_members n [] (d # r'))
          else if take 4 cs = js ''null'' then Inr (JNull, drop 4 cs)
          else if take 4 cs = js ''true'' then Inr (JBool True, drop 4 cs)
          else if take 5 cs = js ''false'' then Inr (JBool False, drop 5 cs)
          else (case parse_number cs of
                  None \<Rightarrow> Inl Syntax
                | Some (l, rest) \<Rightarrow> Inr (JNum l, rest)))"
| "parse_elements 0 acc cs = Inl Fuel"
| "parse_elements (Suc n) acc cs =
     (case parse_value n cs of
        Inl e \<Rightarrow> Inl e
      | Inr (v, r) \<Rightarrow>
          (case skip_ws r of
             [] \<Rightarrow> Inl Syntax
           | d # r' \<Rightarrow>
               if d = 0x2C then parse_elements n (acc @ [v]) (skip_ws r')
               else if d = 0x5D then Inr (JArr (acc @ [v]), r')
               else Inl Syntax))"
| "parse_members 0 acc cs = Inl Fuel"
| "parse_members (Suc n) acc cs =
     (case cs of
        [] \<Rightarrow> Inl Syntax
      | q # r \<Rightarrow>
          if q \<noteq> 0x22 then Inl Syntax
          else
            (case parse_chars r of
               None \<Rightarrow> Inl Syntax
             | Some (k, r1) \<Rightarrow>
                 (case skip_ws r1 of
                    [] \<Rightarrow> Inl Syntax
                  | col # r2 \<Rightarrow>
                      if col \<noteq> 0x3A then Inl Syntax
                      else
                        (case parse_value n (skip_ws r2) of
                           Inl e \<Rightarrow> Inl e
                         | Inr (v, r3) \<Rightarrow>
                             (case skip_ws r3 of
                                [] \<Rightarrow> Inl Syntax
                              | d # r4 \<Rightarrow>
                                  if d = 0x2C then parse_members n (acc @ [(k, v)]) (skip_ws r4)
                                  else if d = 0x7D then Inr (JObj (acc @ [(k, v)]), r4)
                                  else Inl Syntax)))))"

definition JSON_parse :: "jsstring \<Rightarrow> error + json" where
  "JSON_parse s =
     (case parse_value (Suc (2 * length s)) (skip_ws s) of
        Inl e \<Rightarrow> Inl SyntaxError
      | Inr (v, rest) \<Rightarrow> if skip_ws rest = [] then Inr v else Inl SyntaxError)"

section \<open>Loading (App.tsx, lines 37-48)\<close>

text \<open>
  \<open>JSON.parse\<close> returns \<open>any\<close>, and \<open>setTodos\<close> takes what it is given. The record model
  reads a parsed value as a \<open>Todo[]\<close> when it is an array of objects with exactly the
  properties \<open>id\<close> (a string), \<open>text\<close> (a string) and \<open>completed\<close> (a boolean), in the order
  the component writes them. Any other value is outside the record model.
\<close>

definition todo_of_json :: "json \<Rightarrow> todo option" where
  "todo_of_json v =
     (case v of
        JObj ms \<Rightarrow>
          (if map fst ms = [js ''id'', js ''text'', js ''completed''] then
             (case map snd ms of
                [JStr i, JStr t, JBool c] \<Rightarrow> Some \<lparr>id_t = i, text_t = t, completed = c\<rparr>
              | _ \<Rightarrow> None)
           else None)
      | _ \<Rightarrow> None)"

definition todos_of_json :: "json \<Rightarrow> todo list option" where
  "todos_of_json v = (case v of JArr vs \<Rightarrow> those (map todo_of_json vs) | _ \<Rightarrow> None)"

text \<open>The JavaScript value of a record: what \<open>JSON.parse\<close> returns for its serialization.\<close>

definition json_of_todo :: "todo \<Rightarrow> json" where
  "json_of_todo t =
     JObj [(js ''id'', JStr (id_t t)), (js ''text'', JStr (text_t t)),
           (js ''completed'', JBool (completed t))]"

text \<open>
  The component after its load effect: \<open>Mounted w\<close> when \<open>todos\<close> holds a \<open>Todo[]\<close> of the
  record model, \<open>Foreign v w\<close> when \<open>setTodos\<close> was given the value \<open>v\<close> outside it (\<open>w\<close>
  then carries the other state variables, the store and the console).
\<close>

datatype startup = Mounted world | Foreign json world

definition setTodos_parsed :: "json \<Rightarrow> world \<Rightarrow> startup" where
  "setTodos_parsed v w =
     (case todos_of_json v of
        Some ts \<Rightarrow> Mounted (w\<lparr>todos := ts\<rparr>)
      | None \<Rightarrow> Foreign v w)"

definition setIsDark :: "bool \<Rightarrow> startup \<Rightarrow> startup" where
  "setIsDark b st =
     (case st of
        Mounted w \<Rightarrow> Mounted (w\<lparr>isDark := b\<rparr>)
      | Foreign v w \<Rightarrow> Foreign v (w\<lparr>isDark := b\<rparr>))"

text \<open>
  The body of the \<open>try\<close> block. \<open>if (saved)\<close> is false for \<open>null\<close> and for the empty string.
  A rejected read and a \<open>SyntaxError\<close> leave before any state variable is set.
\<close>

definition load_try :: "bool \<Rightarrow> bool \<Rightarrow> world \<Rightarrow> error + startup" where
  "load_try r1 r2 w =
     (case getItem r1 (disk w) STORAGE_KEY of
        Inl e \<Rightarrow> Inl e
      | Inr saved \<Rightarrow>
          (case getItem r2 (disk w) THEME_KEY of
             Inl e \<Rightarrow> Inl e
           | Inr savedTheme \<Rightarrow>
               (case (case saved of
                        None \<Rightarrow> Inr (Mounted w)
                      | Some s \<Rightarrow>
                          if s = [] then Inr (Mounted w)
                          else (case JSON_parse s of
                                  Inl e \<Rightarrow> Inl e
                                | Inr v \<Rightarrow> Inr (setTodos_parsed v w))) of
                  Inl e \<Rightarrow> Inl e
                | Inr st \<Rightarrow>
                    Inr (if savedTheme = Some (js ''dark'') then setIsDark True st else st))))"

definition load :: "bool \<Rightarrow> bool \<Rightarrow> world \<Rightarrow> startup" where
  "load r1 r2 w =
     (case load_try r1 r2 w of
        Inl e \<Rightarrow> Mounted (console_error e w)
      | Inr st \<Rightarrow> st)"

section \<open>Sequences of intents\<close>

datatype event =
  ChangeText jsstring
| AddTodo int bool
| ToggleComplete jsstring bool
| DeleteTodo jsstring bool
| DragEnd "todo list" bool
| ClearCompleted button bool
| SetFilter Filter
| ThemeToggle bool

fun step :: "event \<Rightarrow> world \<Rightarrow> world" where
  "step (ChangeText s) w = setInput s w"
| "step (AddTodo now ok) w = addTodo now ok w"
| "step (ToggleComplete i ok) w = toggleComplete i ok w"
| "step (DeleteTodo i ok) w = deleteTodo i ok w"
| "step (DragEnd data ok) w = onDragEnd data ok w"
| "step (ClearCompleted b ok) w = clearCompleted b ok w"
| "step (SetFilter f) w = setFilter f w"
| "step (ThemeToggle ok) w = handleThemeToggle ok w"

fun run :: "event list \<Rightarrow> world \<Rightarrow> world" where
  "run [] w = w"
| "run (e # es) w = run es (step e w)"

text \<open>
  The clock readings of the adds that take effect (a text that does not trim to nothing,
  a write the store accepts), in the order of the sequence.
\<close>

fun stamps :: "event list \<Rightarrow> world \<Rightarrow> int list" where
  "stamps [] w = []"
| "stamps (AddTodo now ok # es) w =
     (if ok \<and> trim (input w) \<noteq> [] then now # stamps es (step (AddTodo now ok) w)
      else stamps es (step (AddTodo now ok) w))"
| "stamps (e # es) w = stamps es (step e w)"

text \<open>
  A sequence whose drags rearrange: every payload that is saved holds tasks of the list
  only, none more often than the list does. A drag of the list on screen hands over a
  permutation of \<open>filteredTodos\<close>, which is such a payload.
\<close>

fun rearranging :: "event list \<Rightarrow> world \<Rightarrow> bool" where
  "rearranging [] w = True"
| "rearranging (DragEnd data ok # es) w =
     ((ok \<longrightarrow> mset data \<subseteq># mset (todos w)) \<and> rearranging es (step (DragEnd data ok) w))"
| "rearranging (e # es) w = rearranging es (step e w)"

section \<open>Example worlds\<close>

definition task_a :: todo where
  "task_a = \<lparr>id_t = js ''1'', text_t = js ''a'', completed = False\<rparr>"

definition task_b :: todo where
  "task_b = \<lparr>id_t = js ''2'', text_t = js ''b'', completed = True\<rparr>"

text \<open>Two tasks, the second one completed, seen through the filter \<open>active\<close>.\<close>

definition world_ab :: world where
  "world_ab = (init Map.empty)\<lparr>todos := [task_a, task_b], filter_f := F_active\<rparr>"

text \<open>An empty list, and \<open>" a "\<close> typed into the input.\<close>

definition world_typing :: world where
  "world_typing = (init Map.empty)\<lparr>input := js '' a ''\<rparr>"

text \<open>
  Two adds at the same clock reading; a drag whose payload repeats a task; and two adds one
  millisecond apart, followed by a drag that swaps the tasks, a toggle and a delete.
\<close>

definition task_1000 :: todo where
  "task_1000 = \<lparr>id_t = js ''1000'', text_t = js ''a'', completed = False\<rparr>"

definition task_1001 :: todo where
  "task_1001 = \<lparr>id_t = js ''1001'', text_t = js ''b'', completed = False\<rparr>"

definition typing_twice :: "event list" where
  "typing_twice =
     [ChangeText (js ''a''), AddTodo 1000 True, ChangeText (js ''b''), AddTodo 1000 True]"

definition dragging_double :: "event list" where
  "dragging_double =
     [ChangeText (js ''a''), AddTodo 1000 True, DragEnd [task_1000, task_1000] True]"

definition typing_dragging :: "event list" where
  "typing_dragging =
     [ChangeText (js ''a''), AddTodo 1000 True, ChangeText (js ''b''), AddTodo 1001 True,
      DragEnd [task_1001, task_1000] True, ToggleComplete (js ''1000'') True,
      DeleteTodo (js ''1001'') True]"

text \<open>
  A task whose text holds a quote, a backslash, a line feed, a lone surrogate and the line
  separator U+2028.
\<close>

definition task_odd :: todo where
  "task_odd = \<lparr>id_t = js ''3'', text_t = [0x22, 0x5C, 0x0A, 0xD800, 0x2028], completed = True\<rparr>"

text \<open>
  Stores with the theme \<open>dark\<close>: one whose task blob is the object \<open>{}\<close>, one whose
  task blob is the unfinished text \<open>[\<close>, one with the empty array.
\<close>

definition disk_object :: storage where
  "disk_object = [STORAGE_KEY \<mapsto> js ''{}'', THEME_KEY \<mapsto> js ''dark'']"

definition disk_broken :: storage where
  "disk_broken = [STORAGE_KEY \<mapsto> js ''['', THEME_KEY \<mapsto> js ''dark'']"

definition disk_empty_list :: storage where
  "disk_empty_list = [STORAGE_KEY \<mapsto> js ''[]'', THEME_KEY \<mapsto> js ''dark'']"

section \<open>Saving\<close>

lemma todos_saveTodos: "todos (saveTodos ok ts w) = (if ok then ts else todos w)"
  by (simp add: saveTodos_def setItem_def console_error_def)

lemma saveTodos_accepted:
  "saveTodos True ts w = w\<lparr>todos := ts, disk := (disk w)(STORAGE_KEY \<mapsto> JSON_stringify ts)\<rparr>"
  by (simp add: saveTodos_def setItem_def)

lemma saveTodos_rejected: "saveTodos False ts w = console_error StorageError w"
  by (simp add: saveTodos_def setItem_def)

lemma trim_typing: "trim (input world_typing) = js ''a''"
  by (simp add: world_typing_def init_def trim_def js_def is_space_def)

lemma toString_1000: "toString 1000 = js ''1000''"
  by (simp add: toString_def digits.simps js_def)

lemma toString_1001: "toString 1001 = js ''1001''"
  by (simp add: toString_def digits.simps js_def)

lemma trim_a: "trim (js ''a'') = js ''a''"
  by (simp add: trim_def js_def is_space_def)

lemma trim_b: "trim (js ''b'') = js ''b''"
  by (simp add: trim_def js_def is_space_def)

lemma filteredTodos_world_ab: "filteredTodos world_ab = [task_a]"
  by (simp add: filteredTodos_def world_ab_def task_a_def task_b_def init_def)

lemma todos_world_ab: "todos world_ab = [task_a, task_b]"
  by (simp add: world_ab_def init_def)

section \<open>Reordering\<close>




section \<open>A rejected write\<close>

text \<open>
  C2 as stated fails: \<open>saveTodos\<close> calls \<open>setTodos\<close> after the awaited write, inside the
  \<open>try\<close>. An add whose write is accepted yields the new task; the same add with the write
  rejected leaves the list empty.
\<close>

theorem rejected_write_counterexample:
  "trim (input world_typing) \<noteq> [] \<and>
   todos (addTodo 1000 True world_typing) =
     [\<lparr>id_t = js ''1000'', text_t = js ''a'', completed = False\<rparr>] \<and>
   todos (addTodo 1000 False world_typing) = []"
  by (simp add: addTodo_def trim_typing toString_1000 todos_saveTodos Let_def)
     (simp add: js_def world_typing_def init_def)

text \<open>
  C2, amended: for every mutating operation (add, toggleComplete, delete, reorder,
  clearCompleted), if the write to the store is rejected, the in-memory task list is the
  one before the operation: the mutation is dropped.
\<close>

theorem rejected_write_keeps_todos:
  "todos (addTodo now False w) = todos w \<and>
   todos (toggleComplete i False w) = todos w \<and>
   todos (deleteTodo i False w) = todos w \<and>
   todos (onDragEnd data False w) = todos w \<and>
   todos (clearCompleted b False w) = todos w"
  by (simp add: addTodo_def toggleComplete_def deleteTodo_def onDragEnd_def clearCompleted_def
      todos_saveTodos Let_def split: button.split)

theorem rejected_write_keeps_todos_witness:
  "todos (addTodo 1000 False world_ab) = [task_a, task_b] \<and>
   todos (toggleComplete (js ''1'') False world_ab) = [task_a, task_b] \<and>
   todos (deleteTodo (js ''1'') False world_ab) = [task_a, task_b] \<and>
   todos (onDragEnd [task_b] False world_ab) = [task_a, task_b] \<and>
   todos (clearCompleted Clear False world_ab) = [task_a, task_b]"
  using rejected_write_keeps_todos
    [where w = world_ab and now = 1000 and i = "js ''1''" and data = "[task_b]" and b = Clear]
  by (simp add: todos_world_ab)

section \<open>Ids\<close>

text \<open>The digits of a clock reading tell the reading: \<open>toString\<close> is one-to-one.\<close>

lemma unat_digit: "m < 10 \<Longrightarrow> unat (of_nat (48 + m) :: cu) = 48 + m"
  by (simp add: unat_of_nat del: of_nat_add)

lemma digits_value: "foldl (\<lambda>a c. 10 * a + (unat c - 48)) 0 (digits n) = n"
proof (induction n rule: digits.induct)
  case (1 n)
  show ?case
  proof (cases "n < 10")
    case True
    then show ?thesis
      by (subst digits.simps) (simp add: unat_digit del: of_nat_add)
  next
    case False
    then have m: "n mod 10 < 10" by simp
    from False 1 have "foldl (\<lambda>a c. 10 * a + (unat c - 48)) 0 (digits (n div 10)) = n div 10"
      by simp
    with False m show ?thesis
      by (subst digits.simps) (simp add: unat_digit del: of_nat_add)
  qed
qed

lemma digits_inj: "digits a = digits b \<Longrightarrow> a = b"
  by (metis digits_value)

lemma digits_no_minus: "0x2D \<notin> set (digits n)"
proof (induction n rule: digits.induct)
  case (1 n)
  show ?case
  proof (cases "n < 10")
    case True
    then have "unat (of_nat (48 + n) :: cu) \<noteq> unat (0x2D :: cu)"
      by (simp add: unat_digit del: of_nat_add)
    then have "(of_nat (48 + n) :: cu) \<noteq> 0x2D" by metis
    with True show ?thesis by (subst digits.simps) (simp del: of_nat_add)
  next
    case False
    then have "unat (of_nat (48 + n mod 10) :: cu) \<noteq> unat (0x2D :: cu)"
      by (simp add: unat_digit del: of_nat_add)
    then have "(of_nat (48 + n mod 10) :: cu) \<noteq> 0x2D" by metis
    with False 1 show ?thesis by (subst digits.simps) (simp del: of_nat_add)
  qed
qed

lemma digits_nonempty: "digits n \<noteq> []"
  by (subst digits.simps) simp

lemma toString_inj: "toString a = toString b \<Longrightarrow> a = b"
proof -
  assume e: "toString a = toString b"
  have h: "\<And>n. hd (digits n) \<noteq> 0x2D"
    using digits_no_minus digits_nonempty by (metis hd_in_set)
  show ?thesis
  proof (cases "a < 0")
    case True
    show ?thesis
    proof (cases "b < 0")
      case b: True
      with True e have "digits (nat (- a)) = digits (nat (- b))" by (simp add: toString_def)
      then have "nat (- a) = nat (- b)" by (rule digits_inj)
      with True b show ?thesis by simp
    next
      case False
      with True e have "hd (digits (nat b)) = 0x2D" by (simp add: toString_def) (metis list.sel(1))
      with h show ?thesis by simp
    qed
  next
    case False
    show ?thesis
    proof (cases "b < 0")
      case True
      with False e have "hd (digits (nat a)) = 0x2D" by (simp add: toString_def)
      with h show ?thesis by simp
    next
      case b: False
      with False e have "digits (nat a) = digits (nat b)" by (simp add: toString_def)
      then have "nat a = nat b" by (rule digits_inj)
      with False b show ?thesis by simp
    qed
  qed
qed

lemma id_t_toggle:
  "id_t \<circ> (\<lambda>t. if id_t t = i then t\<lparr>completed := \<not> completed t\<rparr> else t) = id_t"
  by (rule ext) simp

lemma distinct_sub_mset:
  assumes "mset xs \<subseteq># mset ys" and "distinct ys"
  shows "distinct xs \<and> set xs \<subseteq> set ys"
proof
  have "count (mset xs) a \<le> 1" for a
  proof -
    from assms(1) have "count (mset xs) a \<le> count (mset ys) a" by (rule mset_subset_eq_count)
    also from assms(2) have "\<dots> \<le> 1" by (simp add: distinct_count_atmost_1)
    finally show ?thesis .
  qed
  then show "distinct xs"
    by (metis count_mset_0_iff distinct_count_atmost_1 le_neq_implies_less less_one)
  from assms(1) show "set xs \<subseteq> set ys" using set_mset_mono by fastforce
qed

lemma rearranged_ids:
  assumes "mset data \<subseteq># mset ts" and "distinct (map id_t ts)"
  shows "distinct (map id_t data) \<and> set (map id_t data) \<subseteq> set (map id_t ts)"
proof -
  from assms(1) have "mset (map id_t data) \<subseteq># mset (map id_t ts)"
    by (simp add: image_mset_subseteq_mono)
  from this assms(2) show ?thesis by (rule distinct_sub_mset)
qed

text \<open>A step that is no add taking effect keeps the ids apart and adds none.\<close>

lemma ids_step_other:
  assumes d: "distinct (map id_t (todos w))"
    and r: "rearranging (e # es) w"
    and n: "\<And>now ok. e = AddTodo now ok \<Longrightarrow> \<not> (ok \<and> trim (input w) \<noteq> [])"
  shows "distinct (map id_t (todos (step e w))) \<and>
         set (map id_t (todos (step e w))) \<subseteq> set (map id_t (todos w))"
proof (cases e)
  case (ChangeText s)
  with d show ?thesis by (simp add: setInput_def)
next
  case (AddTodo now ok)
  with n have "\<not> (ok \<and> trim (input w) \<noteq> [])" by simp
  with d AddTodo show ?thesis
    by (auto simp add: addTodo_def todos_saveTodos Let_def)
next
  case (ToggleComplete i ok)
  then have eq: "map id_t (todos (step e w)) = map id_t (todos w)"
    by (simp add: toggleComplete_def todos_saveTodos id_t_toggle)
  show ?thesis unfolding eq using d by simp
next
  case (DeleteTodo i ok)
  with d show ?thesis
    by (auto simp add: deleteTodo_def todos_saveTodos distinct_map_filter)
next
  case (DragEnd data ok)
  show ?thesis
  proof (cases ok)
    case True
    with r DragEnd have "mset data \<subseteq># mset (todos w)" by simp
    with d have "distinct (map id_t data) \<and> set (map id_t data) \<subseteq> set (map id_t (todos w))"
      by (intro rearranged_ids)
    with True DragEnd show ?thesis by (simp add: onDragEnd_def todos_saveTodos)
  next
    case False
    with d DragEnd show ?thesis by (simp add: onDragEnd_def todos_saveTodos)
  qed
next
  case (ClearCompleted b ok)
  with d show ?thesis
    by (cases b) (auto simp add: clearCompleted_def todos_saveTodos distinct_map_filter)
next
  case (SetFilter f)
  with d show ?thesis by (simp add: setFilter_def)
next
  case (ThemeToggle ok)
  with d show ?thesis
    by (simp add: handleThemeToggle_def setItem_def Let_def)
qed

lemma stamps_other:
  assumes "\<And>now ok. e = AddTodo now ok \<Longrightarrow> \<not> (ok \<and> trim (input w) \<noteq> [])"
  shows "stamps (e # es) w = stamps es (step e w)"
  using assms by (cases e) auto

lemma rearranging_tail: "rearranging (e # es) w \<Longrightarrow> rearranging es (step e w)"
  by (cases e) simp_all

lemma ids_run:
  assumes "distinct (map id_t (todos w))"
    and "set (map id_t (todos w)) \<subseteq> toString ` S"
    and "distinct (stamps es w)"
    and "set (stamps es w) \<inter> S = {}"
    and "rearranging es w"
  shows "distinct (map id_t (todos (run (take k es) w)))"
  using assms
proof (induction es arbitrary: w S k)
  case Nil
  then show ?case by simp
next
  case (Cons e es)
  show ?case
  proof (cases k)
    case 0
    with Cons.prems show ?thesis by simp
  next
    case (Suc j)
    from Cons.prems(5) have r: "rearranging es (step e w)" by (rule rearranging_tail)
    show ?thesis
    proof (cases "\<exists>now. e = AddTodo now True \<and> trim (input w) \<noteq> []")
      case True
      then obtain now where e: "e = AddTodo now True" and t: "trim (input w) \<noteq> []" by blast
      from e t Cons.prems(3) have s: "now \<notin> set (stamps es (step e w))" "distinct (stamps es (step e w))"
        by simp_all
      from e t Cons.prems(4) have n: "now \<notin> S" "set (stamps es (step e w)) \<inter> S = {}"
        by simp_all
      from n(1) have "toString now \<notin> toString ` S"
        using toString_inj by blast
      with Cons.prems(2) have f: "toString now \<notin> set (map id_t (todos w))" by blast
      from e t have td: "todos (step e w) =
          todos w @ [\<lparr>id_t = toString now, text_t = trim (input w), completed = False\<rparr>]"
        by (simp add: addTodo_def todos_saveTodos Let_def)
      from td f Cons.prems(1) have 1: "distinct (map id_t (todos (step e w)))" by simp
      from td Cons.prems(2) have 2: "set (map id_t (todos (step e w))) \<subseteq> toString ` insert now S"
        by auto
      from s n have 3: "set (stamps es (step e w)) \<inter> insert now S = {}" by simp
      from Cons.IH [OF 1 2 s(2) 3 r, of j] Suc show ?thesis by simp
    next
      case False
      then have n: "\<And>now ok. e = AddTodo now ok \<Longrightarrow> \<not> (ok \<and> trim (input w) \<noteq> [])" by blast
      from Cons.prems(1,5) n have i: "distinct (map id_t (todos (step e w))) \<and>
         set (map id_t (todos (step e w))) \<subseteq> set (map id_t (todos w))"
        by (rule ids_step_other)
      from n have st: "stamps (e # es) w = stamps es (step e w)" by (rule stamps_other)
      from i Cons.prems(2) have 2: "set (map id_t (todos (step e w))) \<subseteq> toString ` S" by blast
      from Cons.prems(3,4) st have 3: "distinct (stamps es (step e w))"
        and 4: "set (stamps es (step e w)) \<inter> S = {}" by simp_all
      from Cons.IH [OF conjunct1 [OF i] 2 3 4 r, of j] Suc show ?thesis by simp
    qed
  qed
qed

lemma drag_of_shown_rearranges:
  "mset data = mset (filteredTodos w) \<Longrightarrow> mset data \<subseteq># mset (todos w)"
  by (simp add: filteredTodos_def)

lemma js_a_nonempty: "js ''a'' \<noteq> []" "js ''b'' \<noteq> []"
  by (simp_all add: js_def)

text \<open>
  C3 as stated fails: the id is the clock reading, and nothing compares it with the ids of
  the list. Two adds that read the same millisecond (the clock may be set back between
  them) give two tasks with the id \<open>"1000"\<close>. A reorder payload is saved as it is, so one
  that repeats a task gives two tasks with one id as well.
\<close>

theorem unique_ids_counterexample:
  "map id_t (todos (run typing_twice (init Map.empty))) = [js ''1000'', js ''1000''] \<and>
   map id_t (todos (run dragging_double (init Map.empty))) = [js ''1000'', js ''1000'']"
  by (simp add: typing_twice_def dragging_double_def setInput_def addTodo_def onDragEnd_def
      todos_saveTodos Let_def saveTodos_def setItem_def trim_a trim_b toString_1000 task_1000_def)
     (simp add: init_def js_def)

text \<open>
  C3, amended: start from the empty list, let the adds that take effect read pairwise
  different clock values, and let every reorder that takes effect hand over only tasks of
  the current list, none more often than the list holds it (as a drag of the tasks on
  screen does). Then after every prefix of the sequence of add, toggleComplete, delete,
  reorder (and clearCompleted, filter, theme and typing) steps, no two tasks of the list
  share an id.
\<close>

theorem unique_ids_distinct_clocks:
  "todos w = [] \<Longrightarrow> distinct (stamps es w) \<Longrightarrow> rearranging es w \<Longrightarrow>
   distinct (map id_t (todos (run (take k es) w)))"
  by (rule ids_run [where S = "{}"]) simp_all

theorem unique_ids_distinct_clocks_witness:
  "todos (init Map.empty) = [] \<and>
   stamps typing_dragging (init Map.empty) = [1000, 1001] \<and>
   rearranging typing_dragging (init Map.empty) \<and>
   map id_t (todos (run (take 5 typing_dragging) (init Map.empty))) = [js ''1001'', js ''1000''] \<and>
   distinct (map id_t (todos (run (take 5 typing_dragging) (init Map.empty))))"
proof -
  have e: "todos (init Map.empty) = []" by (simp add: init_def)
  have s: "stamps typing_dragging (init Map.empty) = [1000, 1001]"
    by (simp add: typing_dragging_def setInput_def addTodo_def Let_def saveTodos_def setItem_def
        trim_a trim_b js_a_nonempty init_def)
  have m: "mset [task_1001, task_1000] \<subseteq># mset [task_1000, task_1001]"
    by (simp add: add_mset_commute)
  have r: "rearranging typing_dragging (init Map.empty)"
    using m
    by (simp add: typing_dragging_def setInput_def addTodo_def Let_def saveTodos_def setItem_def
        trim_a trim_b js_a_nonempty toString_1000 toString_1001 task_1000_def task_1001_def
        init_def)
  have i: "map id_t (todos (run (take 5 typing_dragging) (init Map.empty))) = [js ''1001'', js ''1000'']"
    by (simp add: typing_dragging_def setInput_def addTodo_def onDragEnd_def Let_def
        saveTodos_def setItem_def trim_a trim_b js_a_nonempty init_def task_1000_def task_1001_def)
  have d: "distinct (stamps typing_dragging (init Map.empty))" by (simp add: s)
  from unique_ids_distinct_clocks [OF e d r, of 5] e s r i show ?thesis by simp
qed

section \<open>Adding and toggling\<close>

text \<open>
  C5 as stated fails where the store rejects the write: the text \<open>" a "\<close> trims to
  \<open>"a"\<close>, yet the list has not grown.
\<close>

theorem add_rejected_counterexample:
  "trim (input world_typing) \<noteq> [] \<and>
   length (todos (addTodo 1000 False world_typing)) \<noteq> Suc (length (todos world_typing))"
  by (simp add: addTodo_def trim_typing todos_saveTodos Let_def)
     (simp add: js_def)

text \<open>
  C5, amended: for every input text and every current task list, if the trimmed text is
  empty, add leaves the task sequence (and everything else) unchanged; otherwise, when the
  store accepts the write, add appends exactly one new task with completed=false, the
  trimmed text and the clock reading as id to the end of the sequence, leaving all
  existing tasks unchanged and increasing the length by exactly 1; when the store rejects
  the write, the sequence is unchanged.
\<close>

theorem add_appends_one:
  "(trim (input w) = [] \<longrightarrow> addTodo now ok w = w) \<and>
   (trim (input w) \<noteq> [] \<and> ok \<longrightarrow>
      todos (addTodo now ok w) =
        todos w @ [\<lparr>id_t = toString now, text_t = trim (input w), completed = False\<rparr>] \<and>
      length (todos (addTodo now ok w)) = Suc (length (todos w))) \<and>
   (trim (input w) \<noteq> [] \<and> \<not> ok \<longrightarrow> todos (addTodo now ok w) = todos w)"
  by (simp add: addTodo_def todos_saveTodos Let_def)

theorem add_appends_one_witness:
  "trim (input world_typing) \<noteq> [] \<and>
   todos (addTodo 1000 True world_typing) =
     [\<lparr>id_t = js ''1000'', text_t = js ''a'', completed = False\<rparr>] \<and>
   trim (input (setInput (js ''   '') world_ab)) = [] \<and>
   addTodo 1000 True (setInput (js ''   '') world_ab) = setInput (js ''   '') world_ab"
proof -
  have t: "trim (input world_typing) \<noteq> []" by (simp add: trim_typing js_def)
  have e: "trim (input (setInput (js ''   '') world_ab)) = []"
    by (simp add: setInput_def trim_def js_def is_space_def)
  have n: "todos world_typing = []" by (simp add: world_typing_def init_def)
  from add_appends_one [of world_typing 1000 True]
    add_appends_one [of "setInput (js ''   '') world_ab" 1000 True] t e n
  show ?thesis by (simp add: trim_typing toString_1000)
qed

text \<open>
  C6 as stated fails where the store rejects the write: the task with id \<open>"1"\<close> exists
  and is not replaced by its flipped copy.
\<close>

theorem toggle_rejected_counterexample:
  "js ''1'' \<in> set (map id_t (todos world_ab)) \<and>
   todos (toggleComplete (js ''1'') False world_ab) ! 0 = task_a \<and>
   task_a \<noteq> task_a\<lparr>completed := \<not> completed task_a\<rparr>"
  by (simp add: toggleComplete_def todos_saveTodos todos_world_ab)
     (simp add: task_a_def)

text \<open>
  C6, amended: for every task list and every id, when the store accepts the write,
  toggleComplete(id) replaces every task with that id by a copy whose completed flag is
  flipped, keeps the length and the positions and leaves every other task unchanged, and
  if no task has that id the list is unchanged (no error); when the store rejects the
  write, the list is unchanged.
\<close>

theorem toggle_flips_in_place:
  "(ok \<longrightarrow>
      length (todos (toggleComplete i ok w)) = length (todos w) \<and>
      (\<forall>k < length (todos w).
         todos (toggleComplete i ok w) ! k =
           (if id_t (todos w ! k) = i
            then (todos w ! k)\<lparr>completed := \<not> completed (todos w ! k)\<rparr>
            else todos w ! k)) \<and>
      (i \<notin> set (map id_t (todos w)) \<longrightarrow> todos (toggleComplete i ok w) = todos w)) \<and>
   (\<not> ok \<longrightarrow> todos (toggleComplete i ok w) = todos w)"
  by (auto simp add: toggleComplete_def todos_saveTodos intro!: map_idI)

theorem toggle_flips_in_place_witness:
  "length (todos (toggleComplete (js ''1'') True world_ab)) = 2 \<and>
   todos (toggleComplete (js ''1'') True world_ab) ! 0 = task_a\<lparr>completed := True\<rparr> \<and>
   todos (toggleComplete (js ''1'') True world_ab) ! 1 = task_b \<and>
   js ''3'' \<notin> set (map id_t (todos world_ab)) \<and>
   todos (toggleComplete (js ''3'') True world_ab) = [task_a, task_b]"
proof -
  have n: "js ''3'' \<notin> set (map id_t (todos world_ab))"
    by (simp add: todos_world_ab task_a_def task_b_def js_def)
  have i: "id_t (todos world_ab ! 0) = js ''1''" "id_t (todos world_ab ! 1) \<noteq> js ''1''"
    "completed (todos world_ab ! 0) = False"
    by (simp_all add: todos_world_ab task_a_def task_b_def js_def)
  from toggle_flips_in_place [of True "js ''1''" world_ab]
  have "length (todos (toggleComplete (js ''1'') True world_ab)) = 2"
    and "todos (toggleComplete (js ''1'') True world_ab) ! 0 = task_a\<lparr>completed := True\<rparr>"
    and "todos (toggleComplete (js ''1'') True world_ab) ! 1 = task_b"
    using i by (simp_all add: todos_world_ab)
  moreover from toggle_flips_in_place [of True "js ''3''" world_ab] n
  have "todos (toggleComplete (js ''3'') True world_ab) = [task_a, task_b]"
    by (simp add: todos_world_ab)
  ultimately show ?thesis using n by simp
qed

section \<open>The derived view\<close>

text \<open>
  C7: for every task list, the view under filter=active is a subsequence of the full list
  (original relative order) that holds exactly the tasks with completed==false, each as
  often as the list does; under filter=completed it holds exactly the completed tasks;
  under filter=all it is the list itself. Filtering never reorders.
\<close>

theorem filtering_keeps_order:
  "subseq (filteredTodos w) (todos w) \<and>
   (filter_f w = F_active \<longrightarrow>
      mset (filteredTodos w) = filter_mset (\<lambda>t. \<not> completed t) (mset (todos w))) \<and>
   (filter_f w = F_completed \<longrightarrow>
      mset (filteredTodos w) = filter_mset (\<lambda>t. completed t) (mset (todos w))) \<and>
   (filter_f w = F_all \<longrightarrow> filteredTodos w = todos w)"
  by (simp add: filteredTodos_def)

theorem filtering_keeps_order_witness:
  "filter_f world_ab = F_active \<and> filteredTodos world_ab = [task_a] \<and>
   subseq [task_a] [task_a, task_b] \<and>
   mset (filteredTodos world_ab) = filter_mset (\<lambda>t. \<not> completed t) (mset [task_a, task_b])"
proof -
  have f: "filter_f world_ab = F_active" by (simp add: world_ab_def init_def)
  from filtering_keeps_order [of world_ab] f show ?thesis
    by (simp add: filteredTodos_world_ab todos_world_ab)
qed

text \<open>
  C8: for every task list and every filter value, the activeCount of the view is the
  number of positions of the full, unfiltered list that hold a task with
  completed==false; setting the filter never changes it.
\<close>

theorem activeCount_ignores_filter:
  "activeCount (setFilter f w) = activeCount w \<and>
   activeCount w = card {k. k < length (todos w) \<and> \<not> completed (todos w ! k)}"
  by (simp add: activeCount_def setFilter_def length_filter_conv_card)

theorem activeCount_ignores_filter_witness:
  "activeCount (setFilter F_completed world_ab) = 1 \<and>
   card {k. k < length (todos world_ab) \<and> \<not> completed (todos world_ab ! k)} = 1"
proof -
  have "activeCount world_ab = 1"
    by (simp add: activeCount_def todos_world_ab task_a_def task_b_def)
  with activeCount_ignores_filter [of F_completed world_ab] show ?thesis by simp
qed

section \<open>\<open>JSON.parse\<close> has fuel enough\<close>

text \<open>
  Every successful call consumes input, so the calls number at most twice the length of
  the text: the parser never reports \<open>Fuel\<close> from the fuel \<open>JSON_parse\<close> gives it, more
  fuel gives the same result, and \<open>SyntaxError\<close> always stands for a text outside the
  grammar.
\<close>

lemma length_skip_ws: "length (skip_ws cs) \<le> length cs"
  by (simp add: skip_ws_def length_dropWhile_le)

lemma skip_ws_Cons_shorter: "skip_ws r = d # r' \<Longrightarrow> length r' < length r"
  using length_skip_ws [of r] by simp

lemma cons_fst_Some: "cons_fst c r = Some (s, rest) \<Longrightarrow> \<exists>s'. r = Some (s', rest)"
  by (auto simp add: cons_fst_def split: option.splits)

lemma parse_chars_shorter: "parse_chars cs = Some (s, rest) \<Longrightarrow> length rest < length cs"
proof (induction cs arbitrary: s rule: parse_chars.induct)
  case 1
  then show ?case by simp
next
  case (2 c cs)
  show ?case
  proof (cases "c = 0x22")
    case True
    with "2.prems" show ?thesis by simp
  next
    case q: False
    show ?thesis
    proof (cases "c = 0x5C")
      case False
      with q "2.prems" obtain s' where "\<not> c < 0x20" "parse_chars cs = Some (s', rest)"
        by (auto split: if_splits dest: cons_fst_Some)
      with q False "2.IH"(3) [of s'] show ?thesis by simp
    next
      case True
      with q "2.prems" obtain e r where cs: "cs = e # r"
        by (cases cs) auto
      show ?thesis
      proof (cases "e = 0x75")
        case False
        with q True cs "2.prems" obtain u s' where "unescape e = Some u" "parse_chars r = Some (s', rest)"
          by (auto split: option.splits dest: cons_fst_Some)
        with q True cs False "2.IH"(2) [of e r u s'] show ?thesis by simp
      next
        case u: True
        with q True cs "2.prems" obtain h1 h2 h3 h4 r' where r: "r = h1 # h2 # h3 # h4 # r'"
          by (auto split: list.splits)
        with q True cs u r "2.prems" obtain x s' where
          hx: "hex4 h1 h2 h3 h4 = Some x" and pc: "parse_chars r' = Some (s', rest)"
          by (auto split: option.splits dest: cons_fst_Some)
        have "length rest < length r'"
          by (rule "2.IH"(1) [OF q True cs u r refl refl refl hx pc])
        with cs r show ?thesis by simp
      qed
    qed
  qed
qed


lemma number_int_shorter: "number_int cs = Some (l, rest) \<Longrightarrow> length rest < length cs"
  by (auto simp add: number_int_def less_Suc_eq_le length_dropWhile_le split: list.splits if_splits)

lemma number_digits1_shorter: "number_digits1 pre r = Some (l, rest) \<Longrightarrow> length rest \<le> length r"
  by (auto simp add: number_digits1_def length_dropWhile_le split: if_splits)

lemma number_frac_shorter: "number_frac cs = Some (l, rest) \<Longrightarrow> length rest \<le> length cs"
  by (auto simp add: number_frac_def le_SucI length_dropWhile_le split: list.splits if_splits)

lemma number_exp_shorter: "number_exp cs = Some (l, rest) \<Longrightarrow> length rest \<le> length cs"
  by (auto simp add: number_exp_def le_SucI split: list.splits if_splits
      dest!: number_digits1_shorter)

lemma parse_number_shorter:
  assumes "parse_number cs = Some (l, rest)"
  shows "length rest < length cs"
proof -
  obtain sgn r0 where r0: "(case cs of [] \<Rightarrow> ([], cs) | m # r \<Rightarrow> if m = 0x2D then ([m], r) else ([], cs)) = (sgn, r0)"
    by (cases "(case cs of [] \<Rightarrow> ([], cs) | m # r \<Rightarrow> if m = 0x2D then ([m], r) else ([], cs))")
  then have l0: "length r0 \<le> length cs"
    by (auto split: list.splits if_splits)
  from assms r0 obtain i r1 f r2 x where
    "number_int r0 = Some (i, r1)" "number_frac r1 = Some (f, r2)" "number_exp r2 = Some (x, rest)"
    by (auto simp add: parse_number_def split: option.splits)
  then have "length r1 < length r0" "length r2 \<le> length r1" "length rest \<le> length r2"
    by (auto dest: number_int_shorter number_frac_shorter number_exp_shorter)
  with l0 show ?thesis by simp
qed

lemma parse_value_step:
  assumes E: "\<And>acc cs v r. parse_elements n acc cs = Inr (v, r) \<Longrightarrow> length r < length cs"
    and M: "\<And>acc cs v r. parse_members n acc cs = Inr (v, r) \<Longrightarrow> length r < length cs"
    and p: "parse_value (Suc n) cs = Inr (v, r)"
  shows "length r < length cs"
proof (cases cs)
  case Nil
  with p show ?thesis by simp
next
  case (Cons c r0)
  consider (str) "c = 0x22" | (arr) "c \<noteq> 0x22" "c = 0x5B" | (obj) "c \<noteq> 0x22" "c \<noteq> 0x5B" "c = 0x7B"
    | (lit) "c \<noteq> 0x22" "c \<noteq> 0x5B" "c \<noteq> 0x7B"
    by blast
  then show ?thesis
  proof cases
    case str
    with p Cons show ?thesis
      by (auto split: option.splits dest: parse_chars_shorter)
  next
    case arr
    with p Cons show ?thesis
      by (auto split: list.splits if_splits dest!: skip_ws_Cons_shorter E)
  next
    case obj
    with p Cons show ?thesis
      by (auto split: list.splits if_splits dest!: skip_ws_Cons_shorter M)
  next
    case lit
    with p Cons show ?thesis
      by (auto split: if_splits option.splits dest: parse_number_shorter)
  qed
qed


lemma parse_elements_step:
  assumes V: "\<And>cs v r. parse_value n cs = Inr (v, r) \<Longrightarrow> length r < length cs"
    and E: "\<And>acc cs v r. parse_elements n acc cs = Inr (v, r) \<Longrightarrow> length r < length cs"
    and p: "parse_elements (Suc n) acc cs = Inr (v, r)"
  shows "length r < length cs"
proof -
  from p obtain v1 r1 where v1: "parse_value n cs = Inr (v1, r1)"
    by (auto split: sum.splits)
  with p obtain d r' where d: "skip_ws r1 = d # r'"
    by (auto split: list.splits)
  from v1 have l1: "length r1 < length cs" by (rule V)
  from d have l2: "length r' < length r1" by (rule skip_ws_Cons_shorter)
  show ?thesis
  proof (cases "d = 0x2C")
    case True
    with p v1 d have "parse_elements n (acc @ [v1]) (skip_ws r') = Inr (v, r)" by simp
    then have "length r < length (skip_ws r')" by (rule E)
    with l1 l2 length_skip_ws [of r'] show ?thesis by simp
  next
    case False
    with p v1 d have "r = r'" by (auto split: if_splits)
    with l1 l2 show ?thesis by simp
  qed
qed

lemma parse_members_step:
  assumes V: "\<And>cs v r. parse_value n cs = Inr (v, r) \<Longrightarrow> length r < length cs"
    and M: "\<And>acc cs v r. parse_members n acc cs = Inr (v, r) \<Longrightarrow> length r < length cs"
    and p: "parse_members (Suc n) acc cs = Inr (v, r)"
  shows "length r < length cs"
proof -
  from p obtain r0 where cs: "cs = 0x22 # r0"
    by (cases cs) (auto split: if_splits)
  with p obtain k r1 where k: "parse_chars r0 = Some (k, r1)"
    by (auto split: option.splits)
  with p cs obtain r2 where c: "skip_ws r1 = 0x3A # r2"
    by (auto split: list.splits if_splits)
  with p cs k obtain v1 r3 where v1: "parse_value n (skip_ws r2) = Inr (v1, r3)"
    by (auto split: sum.splits)
  with p cs k c obtain d r4 where d: "skip_ws r3 = d # r4"
    by (auto split: list.splits)
  from k have "length r1 < length r0" by (rule parse_chars_shorter)
  moreover from c have "length r2 < length r1" by (rule skip_ws_Cons_shorter)
  moreover from v1 have "length r3 < length (skip_ws r2)" by (rule V)
  moreover from d have "length r4 < length r3" by (rule skip_ws_Cons_shorter)
  ultimately have l: "length r4 < length cs"
    using length_skip_ws [of r2] cs by simp
  show ?thesis
  proof (cases "d = 0x2C")
    case True
    with p cs k c v1 d have "parse_members n (acc @ [(k, v1)]) (skip_ws r4) = Inr (v, r)" by simp
    then have "length r < length (skip_ws r4)" by (rule M)
    with l length_skip_ws [of r4] show ?thesis by simp
  next
    case False
    with p cs k c v1 d have "r = r4" by (auto split: if_splits)
    with l show ?thesis by simp
  qed
qed

lemma parse_shorter:
  "(\<forall>cs v r. parse_value n cs = Inr (v, r) \<longrightarrow> length r < length cs) \<and>
   (\<forall>acc cs v r. parse_elements n acc cs = Inr (v, r) \<longrightarrow> length r < length cs) \<and>
   (\<forall>acc cs v r. parse_members n acc cs = Inr (v, r) \<longrightarrow> length r < length cs)"
proof (induction n)
  case 0
  show ?case by simp
next
  case (Suc n)
  then have V: "\<And>cs v r. parse_value n cs = Inr (v, r) \<Longrightarrow> length r < length cs"
    and E: "\<And>acc cs v r. parse_elements n acc cs = Inr (v, r) \<Longrightarrow> length r < length cs"
    and M: "\<And>acc cs v r. parse_members n acc cs = Inr (v, r) \<Longrightarrow> length r < length cs"
    by blast+
  show ?case
  proof (intro conjI allI impI)
    fix cs v r
    assume "parse_value (Suc n) cs = Inr (v, r)"
    with E M show "length r < length cs" by (rule parse_value_step)
  next
    fix acc cs v r
    assume "parse_elements (Suc n) acc cs = Inr (v, r)"
    with V E show "length r < length cs" by (rule parse_elements_step)
  next
    fix acc cs v r
    assume "parse_members (Suc n) acc cs = Inr (v, r)"
    with V M show "length r < length cs" by (rule parse_members_step)
  qed
qed

lemma parse_value_shorter: "parse_value n cs = Inr (v, r) \<Longrightarrow> length r < length cs"
  using parse_shorter [of n] by blast

lemma fuel_value_step:
  assumes E: "\<And>acc cs. 2 * length cs + 1 < n \<Longrightarrow> parse_elements n acc cs \<noteq> Inl Fuel"
    and M: "\<And>acc cs. 2 * length cs + 1 < n \<Longrightarrow> parse_members n acc cs \<noteq> Inl Fuel"
    and b: "2 * length cs < Suc n"
  shows "parse_value (Suc n) cs \<noteq> Inl Fuel"
proof (cases cs)
  case Nil
  then show ?thesis by simp
next
  case (Cons c r0)
  consider (str) "c = 0x22" | (arr) "c \<noteq> 0x22" "c = 0x5B" | (obj) "c \<noteq> 0x22" "c \<noteq> 0x5B" "c = 0x7B"
    | (lit) "c \<noteq> 0x22" "c \<noteq> 0x5B" "c \<noteq> 0x7B"
    by blast
  then show ?thesis
  proof cases
    case str
    with Cons show ?thesis by (simp split: option.splits)
  next
    case arr
    show ?thesis
    proof (cases "skip_ws r0")
      case Nil
      with arr Cons show ?thesis by simp
    next
      case d: (Cons d r')
      with b Cons length_skip_ws [of r0] have "2 * length (d # r') + 1 < n" by simp
      then have "parse_elements n [] (d # r') \<noteq> Inl Fuel" by (rule E)
      with arr Cons d show ?thesis by simp
    qed
  next
    case obj
    show ?thesis
    proof (cases "skip_ws r0")
      case Nil
      with obj Cons show ?thesis by simp
    next
      case d: (Cons d r')
      with b Cons length_skip_ws [of r0] have "2 * length (d # r') + 1 < n" by simp
      then have "parse_members n [] (d # r') \<noteq> Inl Fuel" by (rule M)
      with obj Cons d show ?thesis by simp
    qed
  next
    case lit
    with Cons show ?thesis by (simp split: option.splits)
  qed
qed

lemma fuel_elements_step:
  assumes V: "\<And>cs. 2 * length cs < n \<Longrightarrow> parse_value n cs \<noteq> Inl Fuel"
    and E: "\<And>acc cs. 2 * length cs + 1 < n \<Longrightarrow> parse_elements n acc cs \<noteq> Inl Fuel"
    and b: "2 * length cs + 1 < Suc n"
  shows "parse_elements (Suc n) acc cs \<noteq> Inl Fuel"
proof (cases "parse_value n cs")
  case (Inl e)
  from b have "parse_value n cs \<noteq> Inl Fuel" by (intro V) simp
  with Inl show ?thesis by simp
next
  case (Inr p)
  obtain v1 r1 where p: "p = (v1, r1)" by (cases p)
  with Inr have l1: "length r1 < length cs" by (simp add: parse_value_shorter)
  show ?thesis
  proof (cases "skip_ws r1")
    case Nil
    with Inr p show ?thesis by simp
  next
    case (Cons d r')
    then have "length r' < length r1" by (rule skip_ws_Cons_shorter)
    with l1 b length_skip_ws [of r'] have "2 * length (skip_ws r') + 1 < n" by simp
    then have "parse_elements n (acc @ [v1]) (skip_ws r') \<noteq> Inl Fuel" by (rule E)
    with Inr p Cons show ?thesis by simp
  qed
qed

lemma fuel_members_step:
  assumes V: "\<And>cs. 2 * length cs < n \<Longrightarrow> parse_value n cs \<noteq> Inl Fuel"
    and M: "\<And>acc cs. 2 * length cs + 1 < n \<Longrightarrow> parse_members n acc cs \<noteq> Inl Fuel"
    and b: "2 * length cs + 1 < Suc n"
  shows "parse_members (Suc n) acc cs \<noteq> Inl Fuel"
proof (cases cs)
  case Nil
  then show ?thesis by simp
next
  case cs: (Cons q r0)
  show ?thesis
  proof (cases "parse_chars r0")
    case None
    with cs show ?thesis by simp
  next
    case (Some kr)
    obtain k r1 where kr: "kr = (k, r1)" by (cases kr)
    with Some have l1: "length r1 < length r0" by (simp add: parse_chars_shorter)
    show ?thesis
    proof (cases "skip_ws r1")
      case Nil
      with cs Some kr show ?thesis by simp
    next
      case c: (Cons col r2)
      then have l2: "length r2 < length r1" by (rule skip_ws_Cons_shorter)
      with l1 b cs length_skip_ws [of r2] have "2 * length (skip_ws r2) < n" by simp
      then have nf: "parse_value n (skip_ws r2) \<noteq> Inl Fuel" by (rule V)
      show ?thesis
      proof (cases "parse_value n (skip_ws r2)")
        case (Inl e)
        with nf cs Some kr c show ?thesis by simp
      next
        case (Inr p)
        obtain v1 r3 where p: "p = (v1, r3)" by (cases p)
        with Inr have l3: "length r3 < length (skip_ws r2)" by (simp add: parse_value_shorter)
        show ?thesis
        proof (cases "skip_ws r3")
          case Nil
          with cs Some kr c Inr p show ?thesis by simp
        next
          case d: (Cons d r4)
          then have "length r4 < length r3" by (rule skip_ws_Cons_shorter)
          with l1 l2 l3 b cs length_skip_ws [of r2] length_skip_ws [of r4]
          have "2 * length (skip_ws r4) + 1 < n" by simp
          then have "parse_members n (acc @ [(k, v1)]) (skip_ws r4) \<noteq> Inl Fuel" by (rule M)
          with cs Some kr c Inr p d show ?thesis by simp
        qed
      qed
    qed
  qed
qed

lemma enough_fuel:
  "(\<forall>cs. 2 * length cs < n \<longrightarrow> parse_value n cs \<noteq> Inl Fuel) \<and>
   (\<forall>acc cs. 2 * length cs + 1 < n \<longrightarrow> parse_elements n acc cs \<noteq> Inl Fuel) \<and>
   (\<forall>acc cs. 2 * length cs + 1 < n \<longrightarrow> parse_members n acc cs \<noteq> Inl Fuel)"
proof (induction n)
  case 0
  show ?case by simp
next
  case (Suc n)
  then have V: "\<And>cs. 2 * length cs < n \<Longrightarrow> parse_value n cs \<noteq> Inl Fuel"
    and E: "\<And>acc cs. 2 * length cs + 1 < n \<Longrightarrow> parse_elements n acc cs \<noteq> Inl Fuel"
    and M: "\<And>acc cs. 2 * length cs + 1 < n \<Longrightarrow> parse_members n acc cs \<noteq> Inl Fuel"
    by blast+
  show ?case
  proof (intro conjI allI impI)
    fix cs :: jsstring
    assume "2 * length cs < Suc n"
    with E M show "parse_value (Suc n) cs \<noteq> Inl Fuel" by (rule fuel_value_step)
  next
    fix acc and cs :: jsstring
    assume "2 * length cs + 1 < Suc n"
    with V E show "parse_elements (Suc n) acc cs \<noteq> Inl Fuel" by (rule fuel_elements_step)
  next
    fix acc and cs :: jsstring
    assume "2 * length cs + 1 < Suc n"
    with V M show "parse_members (Suc n) acc cs \<noteq> Inl Fuel" by (rule fuel_members_step)
  qed
qed

lemma JSON_parse_fuel: "parse_value (Suc (2 * length s)) (skip_ws s) \<noteq> Inl Fuel"
proof -
  have "2 * length (skip_ws s) < Suc (2 * length s)"
    using length_skip_ws [of s] by simp
  with enough_fuel [of "Suc (2 * length s)"] show ?thesis by blast
qed

lemma more_fuel:
  "(\<forall>cs. parse_value n cs \<noteq> Inl Fuel \<longrightarrow> parse_value (Suc n) cs = parse_value n cs) \<and>
   (\<forall>acc cs. parse_elements n acc cs \<noteq> Inl Fuel \<longrightarrow>
      parse_elements (Suc n) acc cs = parse_elements n acc cs) \<and>
   (\<forall>acc cs. parse_members n acc cs \<noteq> Inl Fuel \<longrightarrow>
      parse_members (Suc n) acc cs = parse_members n acc cs)"
proof (induction n)
  case 0
  show ?case by simp
next
  case (Suc n)
  then have V: "\<And>cs. parse_value n cs \<noteq> Inl Fuel \<Longrightarrow> parse_value (Suc n) cs = parse_value n cs"
    and E: "\<And>acc cs. parse_elements n acc cs \<noteq> Inl Fuel \<Longrightarrow>
              parse_elements (Suc n) acc cs = parse_elements n acc cs"
    and M: "\<And>acc cs. parse_members n acc cs \<noteq> Inl Fuel \<Longrightarrow>
              parse_members (Suc n) acc cs = parse_members n acc cs"
    by blast+
  show ?case
  proof (intro conjI allI impI)
    fix cs
    assume a: "parse_value (Suc n) cs \<noteq> Inl Fuel"
    show "parse_value (Suc (Suc n)) cs = parse_value (Suc n) cs"
    proof (cases cs)
      case Nil
      then show ?thesis by simp
    next
      case (Cons c r)
      show ?thesis
      proof (cases "skip_ws r")
        case Nil
        with Cons show ?thesis by simp
      next
        case d: (Cons d r')
        from a Cons d have "c = 0x5B \<Longrightarrow> d \<noteq> 0x5D \<Longrightarrow> parse_elements n [] (d # r') \<noteq> Inl Fuel"
          by auto
        then have e: "c = 0x5B \<Longrightarrow> d \<noteq> 0x5D \<Longrightarrow>
            parse_elements (Suc n) [] (d # r') = parse_elements n [] (d # r')"
          by (rule E)
        from a Cons d have "c \<noteq> 0x5B \<Longrightarrow> c = 0x7B \<Longrightarrow> d \<noteq> 0x7D \<Longrightarrow> parse_members n [] (d # r') \<noteq> Inl Fuel"
          by auto
        then have m: "c \<noteq> 0x5B \<Longrightarrow> c = 0x7B \<Longrightarrow> d \<noteq> 0x7D \<Longrightarrow>
            parse_members (Suc n) [] (d # r') = parse_members n [] (d # r')"
          by (rule M)
        from Cons d e m show ?thesis
          by (simp del: parse_elements.simps parse_members.simps)
      qed
    qed
  next
    fix acc cs
    assume a: "parse_elements (Suc n) acc cs \<noteq> Inl Fuel"
    then have v: "parse_value n cs \<noteq> Inl Fuel" by auto
    then have v': "parse_value (Suc n) cs = parse_value n cs" by (rule V)
    show "parse_elements (Suc (Suc n)) acc cs = parse_elements (Suc n) acc cs"
    proof (cases "parse_value n cs")
      case (Inl e)
      with v' show ?thesis by (simp del: parse_value.simps)
    next
      case (Inr p)
      obtain v1 r1 where p: "p = (v1, r1)" by (cases p)
      show ?thesis
      proof (cases "skip_ws r1")
        case Nil
        with Inr p v' show ?thesis by (simp del: parse_value.simps)
      next
        case (Cons d r')
        with a Inr p have "d = 0x2C \<Longrightarrow> parse_elements n (acc @ [v1]) (skip_ws r') \<noteq> Inl Fuel"
          by auto
        then have "d = 0x2C \<Longrightarrow> parse_elements (Suc n) (acc @ [v1]) (skip_ws r') =
            parse_elements n (acc @ [v1]) (skip_ws r')"
          by (rule E)
        with Inr p v' Cons show ?thesis
          by (subst parse_elements.simps(2), subst (2) parse_elements.simps(2))
             (simp del: parse_value.simps parse_elements.simps)
      qed
    qed
  next
    fix acc cs
    assume a: "parse_members (Suc n) acc cs \<noteq> Inl Fuel"
    show "parse_members (Suc (Suc n)) acc cs = parse_members (Suc n) acc cs"
    proof (cases cs)
      case Nil
      then show ?thesis by simp
    next
      case cs: (Cons q r0)
      show ?thesis
      proof (cases "parse_chars r0")
        case None
        with cs show ?thesis by (simp del: parse_chars.simps)
      next
        case (Some kr)
        obtain k r1 where kr: "kr = (k, r1)" by (cases kr)
        show ?thesis
        proof (cases "skip_ws r1")
          case Nil
          with cs Some kr show ?thesis by (simp del: parse_chars.simps)
        next
          case c: (Cons col r2)
          from a cs Some kr c have v: "q = 0x22 \<Longrightarrow> col = 0x3A \<Longrightarrow> parse_value n (skip_ws r2) \<noteq> Inl Fuel"
            by (auto simp del: parse_chars.simps)
          then have v': "q = 0x22 \<Longrightarrow> col = 0x3A \<Longrightarrow>
              parse_value (Suc n) (skip_ws r2) = parse_value n (skip_ws r2)"
            by (rule V)
          show ?thesis
          proof (cases "parse_value n (skip_ws r2)")
            case (Inl e)
            with cs Some kr c v' show ?thesis
              by (subst parse_members.simps(2), subst (2) parse_members.simps(2))
                 (simp del: parse_chars.simps parse_value.simps parse_members.simps)
          next
            case (Inr p)
            obtain v1 r3 where p: "p = (v1, r3)" by (cases p)
            show ?thesis
            proof (cases "skip_ws r3")
              case Nil
              with cs Some kr c v' Inr p show ?thesis
                by (subst parse_members.simps(2), subst (2) parse_members.simps(2))
                   (simp del: parse_chars.simps parse_value.simps parse_members.simps)
            next
              case d: (Cons d r4)
              with a cs Some kr c Inr p
              have "q = 0x22 \<Longrightarrow> col = 0x3A \<Longrightarrow> d = 0x2C \<Longrightarrow>
                  parse_members n (acc @ [(k, v1)]) (skip_ws r4) \<noteq> Inl Fuel"
                by (auto simp del: parse_chars.simps)
              then have "q = 0x22 \<Longrightarrow> col = 0x3A \<Longrightarrow> d = 0x2C \<Longrightarrow>
                  parse_members (Suc n) (acc @ [(k, v1)]) (skip_ws r4) =
                  parse_members n (acc @ [(k, v1)]) (skip_ws r4)"
                by (rule M)
              with cs Some kr c v' Inr p d show ?thesis
                by (subst parse_members.simps(2), subst (2) parse_members.simps(2))
                   (simp del: parse_chars.simps parse_value.simps parse_members.simps)
            qed
          qed
        qed
      qed
    qed
  qed
qed

lemma parse_value_more_fuel:
  "parse_value n cs \<noteq> Inl Fuel \<Longrightarrow> parse_value (n + k) cs = parse_value n cs"
proof (induction k)
  case 0
  show ?case by simp
next
  case (Suc k)
  then have "parse_value (n + k) cs \<noteq> Inl Fuel" by simp
  with more_fuel [of "n + k"] have "parse_value (Suc (n + k)) cs = parse_value (n + k) cs"
    by blast
  with Suc show ?case by simp
qed

lemma JSON_parse_any_fuel:
  "parse_value (Suc (2 * length s) + k) (skip_ws s) = parse_value (Suc (2 * length s)) (skip_ws s)"
  using JSON_parse_fuel by (rule parse_value_more_fuel)

section \<open>\<open>JSON.parse\<close> after \<open>JSON.stringify\<close>\<close>

lemma unat_hex_digit: "n < 16 \<Longrightarrow> unat (hex_digit n) = (if n < 10 then 48 + n else 87 + n)"
  by (simp add: hex_digit_def unat_of_nat del: of_nat_add)

lemma hex_value_hex_digit: "n < 16 \<Longrightarrow> hex_value (hex_digit n) = Some n"
  by (simp add: hex_value_def word_le_nat_alt unat_hex_digit)

lemma nibbles:
  "((n div 4096 * 16 + n div 256 mod 16) * 16 + n div 16 mod 16) * 16 + n mod 16 = (n::nat)"
proof -
  have a: "n div 4096 = n div 256 div 16" by (simp add: div_mult2_eq)
  have b: "n div 256 = n div 16 div 16" by (simp add: div_mult2_eq)
  have "n div 4096 * 16 + n div 256 mod 16 = n div 256" unfolding a by simp
  moreover have "n div 256 * 16 + n div 16 mod 16 = n div 16" unfolding b by simp
  ultimately show ?thesis by simp
qed

lemma hex4_unicode:
  "hex4 (hex_digit (unat c div 4096)) (hex_digit (unat c div 256 mod 16))
        (hex_digit (unat c div 16 mod 16)) (hex_digit (unat c mod 16)) = Some c"
proof -
  have b: "unat c < 65536" using unsigned_less [of c, where 'a = nat] by simp
  then have "unat c div 4096 < 16" by simp
  then have "hex4 (hex_digit (unat c div 4096)) (hex_digit (unat c div 256 mod 16))
        (hex_digit (unat c div 16 mod 16)) (hex_digit (unat c mod 16)) =
        Some (of_nat (((unat c div 4096 * 16 + unat c div 256 mod 16) * 16 + unat c div 16 mod 16) * 16 + unat c mod 16))"
    by (simp add: hex4_def hex_value_hex_digit del: of_nat_add of_nat_mult)
  also have "\<dots> = Some (of_nat (unat c))"
    by (simp only: nibbles)
  finally show ?thesis by simp
qed

lemma parse_chars_plain:
  "c \<noteq> 0x22 \<Longrightarrow> c \<noteq> 0x5C \<Longrightarrow> \<not> c < 0x20 \<Longrightarrow>
   parse_chars (c # rest) = cons_fst c (parse_chars rest)"
  by simp

lemma parse_chars_escape:
  "unescape e = Some u \<Longrightarrow> e \<noteq> 0x75 \<Longrightarrow>
   parse_chars (0x5C # e # rest) = cons_fst u (parse_chars rest)"
  by simp

lemma parse_chars_unicode:
  "parse_chars (unicode_escape c @ rest) = cons_fst c (parse_chars rest)"
  by (simp add: unicode_escape_def hex4_unicode)

lemma parse_chars_closing: "parse_chars (0x22 # rest) = Some ([], rest)"
  by simp

lemma surrogate_plain:
  "is_lead c \<or> is_trail c \<Longrightarrow> c \<noteq> 0x22 \<and> c \<noteq> 0x5C \<and> \<not> c < 0x20"
  unfolding is_lead_def is_trail_def by unat_arith

lemma parse_chars_quote_unit:
  "parse_chars (quote_unit c @ rest) = cons_fst c (parse_chars rest)"
  unfolding quote_unit_def
  by (simp add: parse_chars_unicode parse_chars_escape unescape_def del: parse_chars.simps)
     (simp add: parse_chars_plain del: parse_chars.simps)

lemma parse_chars_quote_units:
  "parse_chars (quote_units s @ 0x22 # rest) = Some (s, rest)"
proof (induction s rule: quote_units.induct)
  case 1
  show ?case by simp
next
  case (2 c)
  show ?case
    by (simp add: parse_chars_quote_unit parse_chars_closing cons_fst_def del: parse_chars.simps)
next
  case (3 c d cs)
  show ?case
  proof (cases "is_lead c \<and> is_trail d")
    case True
    then have "parse_chars (c # d # quote_units cs @ 0x22 # rest) =
               cons_fst c (cons_fst d (parse_chars (quote_units cs @ 0x22 # rest)))"
      using surrogate_plain [of c] surrogate_plain [of d]
      by (simp add: parse_chars_plain del: parse_chars.simps)
    with True 3 show ?thesis by (simp add: cons_fst_def del: parse_chars.simps)
  next
    case False
    then have "quote_units (c # d # cs) = quote_unit c @ quote_units (d # cs)"
      by (simp only: quote_units.simps if_False)
    with False 3 show ?thesis
      by (simp add: parse_chars_quote_unit cons_fst_def del: parse_chars.simps quote_units.simps)
  qed
qed


lemma skip_ws_quote: "skip_ws (QuoteJSONString s @ r) = QuoteJSONString s @ r"
  by (simp add: skip_ws_def QuoteJSONString_def is_ws_def)

lemma skip_ws_bool:
  "skip_ws ((if b then js ''true'' else js ''false'') @ r) = (if b then js ''true'' else js ''false'') @ r"
  by (simp add: skip_ws_def js_def is_ws_def)

lemma skip_ws_todo: "skip_ws (stringify_todo t @ r) = stringify_todo t @ r"
  by (simp add: skip_ws_def stringify_todo_def is_ws_def)

lemma parse_value_string: "parse_value (Suc n) (QuoteJSONString s @ rest) = Inr (JStr s, rest)"
  by (simp add: QuoteJSONString_def parse_chars_quote_units del: parse_chars.simps)

lemma parse_value_bool:
  "parse_value (Suc n) ((if b then js ''true'' else js ''false'') @ rest) = Inr (JBool b, rest)"
  by (cases b) (simp_all add: js_def)

lemma parse_member_more:
  assumes "parse_value n (skip_ws X) = Inr (v, 0x2C # R)"
  shows "parse_members (Suc n) acc (QuoteJSONString k @ 0x3A # X) =
         parse_members n (acc @ [(k, v)]) (skip_ws R)"
  using assms
  by (simp add: QuoteJSONString_def parse_chars_quote_units skip_ws_def is_ws_def
      del: parse_chars.simps)

lemma parse_member_last:
  assumes "parse_value n (skip_ws X) = Inr (v, 0x7D # R)"
  shows "parse_members (Suc n) acc (QuoteJSONString k @ 0x3A # X) = Inr (JObj (acc @ [(k, v)]), R)"
  using assms
  by (simp add: QuoteJSONString_def parse_chars_quote_units skip_ws_def is_ws_def
      del: parse_chars.simps)

lemma parse_value_object:
  "parse_value (Suc n) (0x7B # QuoteJSONString k @ r) = parse_members n [] (QuoteJSONString k @ r)"
  by (simp add: QuoteJSONString_def skip_ws_def is_ws_def)

lemma parse_value_todo:
  "parse_value (Suc (Suc (Suc (Suc (Suc n))))) (stringify_todo t @ rest) =
   Inr (json_of_todo t, rest)"
proof -
  let ?b = "(if completed t then js ''true'' else js ''false'')"
  let ?m3 = "QuoteJSONString (js ''completed'') @ 0x3A # ?b @ 0x7D # rest"
  let ?m2 = "QuoteJSONString (js ''text'') @ 0x3A # QuoteJSONString (text_t t) @ 0x2C # ?m3"
  let ?m1 = "QuoteJSONString (js ''id'') @ 0x3A # QuoteJSONString (id_t t) @ 0x2C # ?m2"
  have s: "stringify_todo t @ rest = 0x7B # ?m1"
    by (simp add: stringify_todo_def)
  have "parse_value (Suc (Suc (Suc (Suc (Suc n))))) (0x7B # ?m1) =
        parse_members (Suc (Suc (Suc (Suc n)))) [] ?m1"
    by (rule parse_value_object)
  also have "\<dots> = parse_members (Suc (Suc (Suc n))) ([] @ [(js ''id'', JStr (id_t t))]) (skip_ws ?m2)"
    by (rule parse_member_more) (simp only: skip_ws_quote parse_value_string)
  also have "\<dots> = parse_members (Suc (Suc (Suc n))) [(js ''id'', JStr (id_t t))] ?m2"
    by (simp only: skip_ws_quote append_Nil)
  also have "\<dots> = parse_members (Suc (Suc n))
                      ([(js ''id'', JStr (id_t t))] @ [(js ''text'', JStr (text_t t))]) (skip_ws ?m3)"
    by (rule parse_member_more) (simp only: skip_ws_quote parse_value_string)
  also have "\<dots> = parse_members (Suc (Suc n))
                      [(js ''id'', JStr (id_t t)), (js ''text'', JStr (text_t t))] ?m3"
    by (simp only: skip_ws_quote append_Cons append_Nil)
  also have "\<dots> = Inr (JObj ([(js ''id'', JStr (id_t t)), (js ''text'', JStr (text_t t))] @
                                [(js ''completed'', JBool (completed t))]), rest)"
    by (rule parse_member_last) (simp only: skip_ws_bool parse_value_bool)
  finally show ?thesis
    by (simp only: s json_of_todo_def append_Cons append_Nil)
qed

lemma parse_elements_todos:
  "parse_elements (Suc (Suc (Suc (Suc (Suc (Suc (length ts + n))))))) acc
     (join_comma (map stringify_todo (t # ts)) @ 0x5D # rest) =
   Inr (JArr (acc @ map json_of_todo (t # ts)), rest)"
proof (induction ts arbitrary: t acc)
  case Nil
  show ?case
    by (simp add: parse_value_todo skip_ws_def is_ws_def del: parse_value.simps)
next
  case (Cons u us)
  have "parse_elements (Suc (Suc (Suc (Suc (Suc (Suc (length (u # us) + n))))))) acc
          (join_comma (map stringify_todo (t # u # us)) @ 0x5D # rest) =
        parse_elements (Suc (Suc (Suc (Suc (Suc (Suc (length us + n))))))) (acc @ [json_of_todo t])
          (join_comma (map stringify_todo (u # us)) @ 0x5D # rest)"
    using skip_ws_todo [of u]
    by (cases us) (simp_all add: parse_value_todo skip_ws_def is_ws_def del: parse_value.simps)
  then show ?case
    by (simp only: Cons.IH) simp
qed

lemma length_join_comma: "length ts \<le> length (join_comma (map stringify_todo ts))"
proof (induction ts rule: induct_list012)
  case 1
  show ?case by simp
next
  case (2 t)
  show ?case by (simp add: stringify_todo_def)
next
  case (3 t u us)
  then show ?case by (simp add: stringify_todo_def)
qed

lemma parse_value_empty_array: "parse_value (Suc n) (0x5B # 0x5D # rest) = Inr (JArr [], rest)"
  by (simp add: skip_ws_def is_ws_def)

lemma JSON_parse_stringify: "JSON_parse (JSON_stringify ts) = Inr (JArr (map json_of_todo ts))"
proof (cases ts)
  case Nil
  have s0: "JSON_stringify [] = [0x5B, 0x5D]" by (simp add: JSON_stringify_def)
  have w0: "skip_ws [0x5B, 0x5D] = [0x5B, 0x5D]" by (simp add: skip_ws_def is_ws_def)
  have p: "parse_value (Suc (2 * length (JSON_stringify ts))) (skip_ws (JSON_stringify ts)) =
           Inr (JArr [], [])"
    unfolding Nil s0 w0 by (rule parse_value_empty_array)
  show ?thesis unfolding JSON_parse_def p by (simp add: skip_ws_def Nil)
next
  case (Cons t us)
  let ?s = "JSON_stringify ts"
  let ?body = "join_comma (map stringify_todo (t # us)) @ [0x5D]"
  have s: "?s = 0x5B # ?body" by (simp add: JSON_stringify_def Cons)
  have "length (t # us) \<le> length (join_comma (map stringify_todo (t # us)))"
    by (rule length_join_comma)
  then have "6 + length us \<le> 2 * length ?s" by (simp add: s)
  then obtain n where "2 * length ?s = 6 + length us + n"
    by (auto simp add: le_iff_add)
  then have n: "2 * length ?s = Suc (Suc (Suc (Suc (Suc (Suc (length us + n))))))"
    by simp
  obtain r where b: "join_comma (map stringify_todo (t # us)) = 0x7B # r"
    by (cases us) (simp_all add: stringify_todo_def)
  have w: "skip_ws ?s = 0x5B # ?body" by (simp add: s skip_ws_def is_ws_def)
  have "parse_value (Suc (2 * length ?s)) (0x5B # ?body) =
        parse_elements (2 * length ?s) [] ?body"
    using b by (simp add: skip_ws_def is_ws_def)
  also have "\<dots> = Inr (JArr ([] @ map json_of_todo (t # us)), [])"
    unfolding n using parse_elements_todos [of us n "[]" t "[]"] by simp
  finally have p: "parse_value (Suc (2 * length ?s)) (skip_ws ?s) = Inr (JArr (map json_of_todo ts), [])"
    by (simp only: w Cons [symmetric] append_Nil)
  show ?thesis unfolding JSON_parse_def p by (simp add: skip_ws_def)
qed

lemma todo_of_json_of_todo: "todo_of_json (json_of_todo t) = Some t"
  by (simp add: todo_of_json_def json_of_todo_def)

lemma todos_of_json_of_todos: "todos_of_json (JArr (map json_of_todo ts)) = Some ts"
  by (induction ts) (simp_all add: todos_of_json_def todo_of_json_of_todo)

section \<open>Loading\<close>

lemma keys_differ: "STORAGE_KEY \<noteq> THEME_KEY"
  by (simp add: STORAGE_KEY_def THEME_KEY_def js_def)

lemma JSON_parse_object: "JSON_parse (js ''{}'') = Inr (JObj [])"
  by code_simp

lemma JSON_parse_broken: "JSON_parse (js ''['') = Inl SyntaxError"
  by code_simp

lemma JSON_parse_empty_list: "JSON_parse (js ''[]'') = Inr (JArr [])"
  by code_simp

lemma load_caught: "load_try r1 r2 w = Inl e \<Longrightarrow> load r1 r2 w = Mounted (console_error e w)"
  by (simp add: load_def)

lemma load_try_read_rejected: "\<not> r1 \<or> \<not> r2 \<Longrightarrow> load_try r1 r2 w = Inl StorageError"
  by (auto simp add: load_try_def getItem_def)

lemma load_try_absent:
  "disk w STORAGE_KEY = None \<or> disk w STORAGE_KEY = Some [] \<Longrightarrow>
   load_try True True w =
     Inr (if disk w THEME_KEY = Some (js ''dark'') then Mounted (w\<lparr>isDark := True\<rparr>) else Mounted w)"
  by (auto simp add: load_try_def getItem_def setIsDark_def)

lemma load_try_syntax:
  "disk w STORAGE_KEY = Some s \<Longrightarrow> s \<noteq> [] \<Longrightarrow> JSON_parse s = Inl e \<Longrightarrow>
   load_try True True w = Inl e"
  by (simp add: load_try_def getItem_def)

lemma load_try_parsed:
  "disk w STORAGE_KEY = Some s \<Longrightarrow> s \<noteq> [] \<Longrightarrow> JSON_parse s = Inr v \<Longrightarrow>
   load_try True True w =
     Inr (if disk w THEME_KEY = Some (js ''dark'') then setIsDark True (setTodos_parsed v w)
          else setTodos_parsed v w)"
  by (simp add: load_try_def getItem_def)

lemma JSON_parse_error: "JSON_parse s = Inl e \<Longrightarrow> e = SyntaxError"
  by (auto simp add: JSON_parse_def split: sum.splits prod.splits if_splits)

lemma JSON_stringify_nonempty: "JSON_stringify ts \<noteq> []"
  by (simp add: JSON_stringify_def)

lemma load_after_save:
  "load True True (init ((disk w)(STORAGE_KEY \<mapsto> JSON_stringify ts))) =
   Mounted ((init ((disk w)(STORAGE_KEY \<mapsto> JSON_stringify ts)))
      \<lparr>isDark := (disk w THEME_KEY = Some (js ''dark'')), todos := ts\<rparr>)"
proof -
  let ?d = "(disk w)(STORAGE_KEY \<mapsto> JSON_stringify ts)"
  have k: "disk (init ?d) STORAGE_KEY = Some (JSON_stringify ts)" by (simp add: init_def)
  have t: "disk (init ?d) THEME_KEY = disk w THEME_KEY"
    using keys_differ by (simp add: init_def)
  have "load_try True True (init ?d) =
     Inr (if disk (init ?d) THEME_KEY = Some (js ''dark'')
          then setIsDark True (setTodos_parsed (JArr (map json_of_todo ts)) (init ?d))
          else setTodos_parsed (JArr (map json_of_todo ts)) (init ?d))"
    using k JSON_stringify_nonempty JSON_parse_stringify by (rule load_try_parsed)
  then show ?thesis
    by (simp add: load_def t setTodos_parsed_def todos_of_json_of_todos setIsDark_def)
       (simp add: init_def)
qed

lemma load_restores_theme:
  "load True True (init disk_empty_list) = Mounted ((init disk_empty_list)\<lparr>todos := [], isDark := True\<rparr>)"
proof -
  have k: "disk (init disk_empty_list) STORAGE_KEY = Some (js ''[]'')"
    by (simp add: init_def disk_empty_list_def keys_differ)
  have t: "disk (init disk_empty_list) THEME_KEY = Some (js ''dark'')"
    by (simp add: init_def disk_empty_list_def)
  have n: "js ''[]'' \<noteq> []" by (simp add: js_def)
  from load_try_parsed [OF k n JSON_parse_empty_list] t show ?thesis
    by (simp add: load_def setTodos_parsed_def todos_of_json_def setIsDark_def)
qed

text \<open>
  C9: for every task list, \<open>JSON.parse\<close> of its \<open>JSON.stringify\<close> succeeds with a value
  that reads back as the same list (same length, same order, the same id, text and
  completed at every position); and a component mounted on the store a successful save
  has written holds that list.
\<close>

theorem stringify_parse_roundtrip:
  "(\<exists>v. JSON_parse (JSON_stringify ts) = Inr v \<and> todos_of_json v = Some ts) \<and>
   (\<exists>w'. load True True (init (disk (saveTodos True ts w))) = Mounted w' \<and> todos w' = ts)"
  by (simp add: JSON_parse_stringify todos_of_json_of_todos saveTodos_accepted load_after_save)

theorem stringify_parse_roundtrip_witness:
  \<open>JSON_stringify [task_a, task_b] =
     js ''[{"id":"1","text":"a","completed":false},{"id":"2","text":"b","completed":true}]'' \<and>
   (\<exists>v. JSON_parse (JSON_stringify [task_a, task_b]) = Inr v \<and>
        todos_of_json v = Some [task_a, task_b]) \<and>
   JSON_stringify [task_odd] =
     js ''[{"id":"3","text":"'' @ [0x5C, 0x22, 0x5C, 0x5C, 0x5C, 0x6E, 0x5C, 0x75] @ js ''d800'' @
     [0x2028] @ js ''","completed":true}]'' \<and>
   (\<exists>v. JSON_parse (JSON_stringify [task_odd]) = Inr v \<and> todos_of_json v = Some [task_odd])\<close>
proof -
  have 1: \<open>JSON_stringify [task_a, task_b] =
     js ''[{"id":"1","text":"a","completed":false},{"id":"2","text":"b","completed":true}]''\<close>
    by (simp add: JSON_stringify_def stringify_todo_def QuoteJSONString_def quote_unit_def
        is_lead_def is_trail_def task_a_def task_b_def js_def)
  have 2: \<open>JSON_stringify [task_odd] =
     js ''[{"id":"3","text":"'' @ [0x5C, 0x22, 0x5C, 0x5C, 0x5C, 0x6E, 0x5C, 0x75] @ js ''d800'' @
     [0x2028] @ js ''","completed":true}]''\<close>
    by (simp add: JSON_stringify_def stringify_todo_def QuoteJSONString_def quote_unit_def
        unicode_escape_def hex_digit_def is_lead_def is_trail_def task_odd_def js_def)
  from stringify_parse_roundtrip [of "[task_a, task_b]" world_ab]
  have 3: "\<exists>v. JSON_parse (JSON_stringify [task_a, task_b]) = Inr v \<and>
        todos_of_json v = Some [task_a, task_b]"
    by (rule conjunct1)
  from stringify_parse_roundtrip [of "[task_odd]" world_ab]
  have 4: "\<exists>v. JSON_parse (JSON_stringify [task_odd]) = Inr v \<and> todos_of_json v = Some [task_odd]"
    by (rule conjunct1)
  show ?thesis
    by (rule conjI [OF 1 conjI [OF 3 conjI [OF 2 4]]])
qed

text \<open>
  C4 as stated fails on a blob that is valid JSON of another shape: \<open>{}\<close> parses, nothing
  checks the shape, and \<open>setTodos\<close> receives the object, not the empty sequence.
\<close>

theorem load_foreign_shape_counterexample:
  "JSON_parse (js ''{}'') = Inr (JObj []) \<and> todos_of_json (JObj []) = None \<and>
   load True True (init disk_object) = Foreign (JObj []) ((init disk_object)\<lparr>isDark := True\<rparr>)"
proof -
  have k: "disk (init disk_object) STORAGE_KEY = Some (js ''{}'')"
    by (simp add: init_def disk_object_def keys_differ)
  have t: "disk (init disk_object) THEME_KEY = Some (js ''dark'')"
    by (simp add: init_def disk_object_def)
  have n: "js ''{}'' \<noteq> []" by (simp add: js_def)
  have s: "todos_of_json (JObj []) = None" by (simp add: todos_of_json_def)
  from load_try_parsed [OF k n JSON_parse_object] t s show ?thesis
    by (simp add: load_def JSON_parse_object setTodos_parsed_def setIsDark_def)
qed

text \<open>
  C4, amended: load() never propagates an exception to the caller: every rejected read and
  every \<open>SyntaxError\<close> raised in its body is caught and logged, and the state is left as
  it was. If a read is rejected, or the blob is absent (\<open>null\<close> or the empty string), or
  the blob is not a JSON text, the task list is the empty sequence after load. A blob that
  is a JSON text outside the \<open>Todo[]\<close> shape is handed to \<open>setTodos\<close> as parsed.
\<close>

theorem load_fails_soft:
  "(\<forall>e. load_try r1 r2 (init d) = Inl e \<longrightarrow>
        load r1 r2 (init d) = Mounted (console_error e (init d))) \<and>
   (\<not> r1 \<or> \<not> r2 \<or> d STORAGE_KEY = None \<or> d STORAGE_KEY = Some [] \<or>
    (\<exists>s e. d STORAGE_KEY = Some s \<and> JSON_parse s = Inl e) \<longrightarrow>
      (\<exists>w. load r1 r2 (init d) = Mounted w \<and> todos w = [])) \<and>
   (\<forall>s v. d STORAGE_KEY = Some s \<and> s \<noteq> [] \<and> JSON_parse s = Inr v \<and> todos_of_json v = None \<longrightarrow>
      (\<exists>w. load True True (init d) = Foreign v w))"
proof (intro conjI allI impI)
  fix e
  assume "load_try r1 r2 (init d) = Inl e"
  then show "load r1 r2 (init d) = Mounted (console_error e (init d))" by (rule load_caught)
next
  have d: "disk (init d) = d" and t: "todos (init d) = []" by (simp_all add: init_def)
  assume a: "\<not> r1 \<or> \<not> r2 \<or> d STORAGE_KEY = None \<or> d STORAGE_KEY = Some [] \<or>
    (\<exists>s e. d STORAGE_KEY = Some s \<and> JSON_parse s = Inl e)"
  show "\<exists>w. load r1 r2 (init d) = Mounted w \<and> todos w = []"
  proof (cases "r1 \<and> r2")
    case False
    then have "load_try r1 r2 (init d) = Inl StorageError"
      by (intro load_try_read_rejected) simp
    then show ?thesis by (simp add: load_caught console_error_def t)
  next
    case True
    with a consider (absent) "d STORAGE_KEY = None \<or> d STORAGE_KEY = Some []"
      | (malformed) s e where "d STORAGE_KEY = Some s" "s \<noteq> []" "JSON_parse s = Inl e"
      by blast
    then show ?thesis
    proof cases
      case absent
      with True show ?thesis by (simp add: load_def load_try_absent d t)
    next
      case malformed
      with True have "load_try r1 r2 (init d) = Inl e"
        by (simp add: load_try_syntax d)
      then show ?thesis by (simp add: load_caught console_error_def t)
    qed
  qed
next
  fix s v
  assume "d STORAGE_KEY = Some s \<and> s \<noteq> [] \<and> JSON_parse s = Inr v \<and> todos_of_json v = None"
  then show "\<exists>w. load True True (init d) = Foreign v w"
    by (simp add: load_def load_try_parsed init_def setTodos_parsed_def setIsDark_def)
qed

theorem load_fails_soft_witness:
  "(\<exists>w. load True True (init Map.empty) = Mounted w \<and> todos w = []) \<and>
   (\<exists>w. load True True (init disk_broken) = Mounted w \<and> todos w = []) \<and>
   (\<exists>w. load False True (init disk_empty_list) = Mounted w \<and> todos w = []) \<and>
   (\<exists>w. load True True (init disk_object) = Foreign (JObj []) w)"
proof -
  have b: "disk_broken STORAGE_KEY = Some (js ''['')"
    and o: "disk_object STORAGE_KEY = Some (js ''{}'')"
    by (simp_all add: disk_broken_def disk_object_def keys_differ)
  have n: "js ''{}'' \<noteq> []" by (simp add: js_def)
  have s: "todos_of_json (JObj []) = None" by (simp add: todos_of_json_def)
  from load_fails_soft [of True True Map.empty]
  have "\<exists>w. load True True (init Map.empty) = Mounted w \<and> todos w = []" by simp
  moreover from load_fails_soft [of True True disk_broken] b JSON_parse_broken
  have "\<exists>w. load True True (init disk_broken) = Mounted w \<and> todos w = []" by blast
  moreover from load_fails_soft [of False True disk_empty_list]
  have "\<exists>w. load False True (init disk_empty_list) = Mounted w \<and> todos w = []" by simp
  moreover from load_fails_soft [of True True disk_object] o n s JSON_parse_object
  have "\<exists>w. load True True (init disk_object) = Foreign (JObj []) w" by blast
  ultimately show ?thesis by simp
qed

text \<open>
  C10: for every startup in which the blob at the task-list key is present (it passes
  \<open>if (saved)\<close>: not \<open>null\<close>, not the empty string) and \<open>JSON.parse\<close> fails on it, load()
  does not restore the theme: the error is caught and logged, and \<open>isDark\<close> is still
  false, whatever the theme key holds (and whether or not the reads were rejected).
\<close>

theorem parse_failure_skips_theme:
  "d STORAGE_KEY = Some s \<Longrightarrow> s \<noteq> [] \<Longrightarrow> JSON_parse s = Inl e \<Longrightarrow>
   load True True (init d) = Mounted (console_error SyntaxError (init d)) \<and>
   (\<exists>w. load r1 r2 (init d) = Mounted w \<and> \<not> isDark w)"
proof -
  assume a: "d STORAGE_KEY = Some s" "s \<noteq> []" "JSON_parse s = Inl e"
  have d: "disk (init d) = d" and i: "\<not> isDark (init d)" by (simp_all add: init_def)
  from a have e: "e = SyntaxError" by (simp add: JSON_parse_error)
  from a have t: "load_try True True (init d) = Inl SyntaxError"
    using load_try_syntax [of "init d" s e] by (simp add: d e)
  then have 1: "load True True (init d) = Mounted (console_error SyntaxError (init d))"
    by (rule load_caught)
  have "\<exists>e'. load_try r1 r2 (init d) = Inl e'"
  proof (cases "r1 \<and> r2")
    case True
    with t show ?thesis by auto
  next
    case False
    then have "load_try r1 r2 (init d) = Inl StorageError"
      by (intro load_try_read_rejected) simp
    then show ?thesis by blast
  qed
  then obtain e' where "load_try r1 r2 (init d) = Inl e'" by blast
  then have "load r1 r2 (init d) = Mounted (console_error e' (init d))" by (rule load_caught)
  with i have "\<exists>w. load r1 r2 (init d) = Mounted w \<and> \<not> isDark w"
    by (simp add: console_error_def)
  with 1 show ?thesis by simp
qed

theorem parse_failure_skips_theme_witness:
  "disk_broken STORAGE_KEY = Some (js ''['') \<and> js ''['' \<noteq> [] \<and>
   JSON_parse (js ''['') = Inl SyntaxError \<and>
   disk_broken THEME_KEY = Some (js ''dark'') \<and>
   load True True (init disk_broken) = Mounted (console_error SyntaxError (init disk_broken)) \<and>
   \<not> isDark (console_error SyntaxError (init disk_broken))"
proof -
  have b: "disk_broken STORAGE_KEY = Some (js ''['')"
    by (simp add: disk_broken_def keys_differ)
  have t: "disk_broken THEME_KEY = Some (js ''dark'')"
    by (simp add: disk_broken_def)
  have n: "js ''['' \<noteq> []" by (simp add: js_def)
  have i: "\<not> isDark (console_error SyntaxError (init disk_broken))"
    by (simp add: console_error_def init_def)
  from parse_failure_skips_theme [of disk_broken "js ''[''" SyntaxError True True, OF b n JSON_parse_broken] b t n i JSON_parse_broken show ?thesis by simp
qed

end
